theory Spec2Isabelle
  imports Complex_Main "HOL-Library.Word" "HOL-Library.Log_Nat" "HOL-Library.AList"
begin

unbundle bit_operations_syntax

section \<open>JavaScript numbers\<close>

text \<open>
  A JavaScript \<^verbatim>\<open>number\<close> is an IEEE 754 binary64 value. The finite ones are
  modelled as the real numbers they denote; every arithmetic operation computes the
  exact result and rounds it to the nearest binary64 value, ties to even (\<open>fl\<close>).
  \<open>fl\<close> has 53 significant bits and the smallest exponent of binary64 (subnormal
  numbers are the multiples of \<open>2 ^ -1074\<close>). Not modelled: \<^verbatim>\<open>NaN\<close>, the infinities
  (a result of magnitude \<open>2 ^ 1024\<close> or more) and the sign of zero; the functions
  below say where the source could produce them.
\<close>

type_synonym number = real
type_synonym u32 = "32 word"
type_synonym u8 = "8 word"

definition pow2 :: "int \<Rightarrow> real" where
  "pow2 e = (if 0 \<le> e then 2 ^ nat e else 1 / 2 ^ nat (- e))"

text \<open>\<open>ilog2 x\<close> is the binary exponent of \<open>x \<noteq> 0\<close>: \<open>2 ^ ilog2 x \<le> \<bar>x\<bar> < 2 ^ (ilog2 x + 1)\<close>.\<close>

definition ilog2 :: "real \<Rightarrow> int" where
  "ilog2 x = (if 1 \<le> \<bar>x\<bar> then bitlen \<lfloor>\<bar>x\<bar>\<rfloor> - 1 else - bitlen (\<lceil>1 / \<bar>x\<bar>\<rceil> - 1))"

text \<open>Rounding to the nearest integer, ties to the even one.\<close>

definition rne :: "real \<Rightarrow> int" where
  "rne y = (let f = \<lfloor>y\<rfloor>; d = y - of_int f
            in if d < 1 / 2 then f else if 1 / 2 < d then f + 1
               else if even f then f else f + 1)"

text \<open>The exponent of the last of the 53 bits of the number nearest to \<open>x\<close>; it is
  never below \<open>-1074\<close>.\<close>

definition fl_exp :: "real \<Rightarrow> int" where
  "fl_exp x = max (ilog2 x) (- 1022) - 52"

definition fl :: "real \<Rightarrow> number" where
  "fl x = (if x = 0 then 0 else of_int (rne (x * pow2 (- fl_exp x))) * pow2 (fl_exp x))"

definition add_d :: "number \<Rightarrow> number \<Rightarrow> number" where
  "add_d x y = fl (x + y)"

definition sub_d :: "number \<Rightarrow> number \<Rightarrow> number" where
  "sub_d x y = fl (x - y)"

definition mul_d :: "number \<Rightarrow> number \<Rightarrow> number" where
  "mul_d x y = fl (x * y)"

text \<open>Division; the source never divides by zero on the paths modelled here.\<close>

definition div_d :: "number \<Rightarrow> number \<Rightarrow> number" where
  "div_d x y = fl (x / y)"

text \<open>
  \<^verbatim>\<open>ToInt32\<close>, which the operators \<^verbatim>\<open><<\<close>, \<^verbatim>\<open>>>\<close>, \<^verbatim>\<open>|\<close> and \<^verbatim>\<open>&\<close> apply to their operands:
  truncate towards zero, then wrap modulo \<open>2 ^ 32\<close>.
\<close>

definition toInt32 :: "number \<Rightarrow> u32" where
  "toInt32 x = word_of_int (if 0 \<le> x then \<lfloor>x\<rfloor> else \<lceil>x\<rceil>)"

text \<open>\<^verbatim>\<open>Math.round\<close>: the nearest integer, a tie going to the larger one.\<close>

definition math_round :: "number \<Rightarrow> int" where
  "math_round x = \<lfloor>x + 1 / 2\<rfloor>"

section \<open>Strings and hex colours\<close>

definition hex_digit_value :: "char \<Rightarrow> nat option" where
  "hex_digit_value c =
     (let n = of_char c :: nat
      in if 48 \<le> n \<and> n \<le> 57 then Some (n - 48)
         else if 97 \<le> n \<and> n \<le> 102 then Some (n - 87)
         else if 65 \<le> n \<and> n \<le> 70 then Some (n - 55)
         else None)"

text \<open>
  A string is the list of its code units, each below 256 (the type \<open>char\<close>). The white
  space and the line terminators of JavaScript among these: \<^verbatim>\<open>U+0009\<close> to \<^verbatim>\<open>U+000D\<close>,
  the space and the no-break space \<^verbatim>\<open>U+00A0\<close>.
\<close>

definition is_space :: "char \<Rightarrow> bool" where
  "is_space c = (let n = of_char c :: nat in (9 \<le> n \<and> n \<le> 13) \<or> n = 32 \<or> n = 160)"

text \<open>The value of the longest prefix of hex digits, \<open>None\<close> when that prefix is empty.\<close>

fun hex_prefix :: "nat option \<Rightarrow> string \<Rightarrow> nat option" where
  "hex_prefix acc [] = acc"
| "hex_prefix acc (c # cs) =
     (case hex_digit_value c of
        None \<Rightarrow> acc
      | Some d \<Rightarrow> hex_prefix (Some (16 * (case acc of None \<Rightarrow> 0 | Some n \<Rightarrow> n) + d)) cs)"

text \<open>
  \<^verbatim>\<open>Number.parseInt(s, 16)\<close> as the integer it reads, before the conversion to a
  number: leading white space is skipped, then a sign, then \<^verbatim>\<open>0x\<close> or \<^verbatim>\<open>0X\<close>, then
  the longest run of hex digits is read. \<open>None\<close> is \<^verbatim>\<open>NaN\<close>.
\<close>

definition parseInt16 :: "string \<Rightarrow> int option" where
  "parseInt16 s =
     (let s1 = dropWhile is_space s;
          neg = (s1 \<noteq> [] \<and> hd s1 = CHR ''-'');
          s2 = (if s1 \<noteq> [] \<and> (hd s1 = CHR ''-'' \<or> hd s1 = CHR ''+'') then tl s1 else s1);
          s3 = (case s2 of
                  a # b # r \<Rightarrow> if a = CHR ''0'' \<and> (b = CHR ''x'' \<or> b = CHR ''X'') then r else s2
                | _ \<Rightarrow> s2)
      in case hex_prefix None s3 of
           None \<Rightarrow> None
         | Some n \<Rightarrow> Some (if neg then - int n else int n))"

text \<open>
  \<^verbatim>\<open>ToInt32\<close> of a value of \<^verbatim>\<open>parseInt\<close>: \<^verbatim>\<open>NaN\<close> gives 0; an integer is first rounded
  to a number, and gives 0 when that is infinite.
\<close>

definition int32_of_parsed :: "int option \<Rightarrow> u32" where
  "int32_of_parsed p =
     (case p of
        None \<Rightarrow> 0
      | Some n \<Rightarrow> if 2 ^ 1024 \<le> \<bar>fl (of_int n)\<bar> then 0 else toInt32 (fl (of_int n)))"

text \<open>\<^verbatim>\<open>int32ToRgb\<close>: the three low bytes of a colour, highest first.\<close>

definition int32ToRgb :: "u32 \<Rightarrow> u32 \<times> u32 \<times> u32" where
  "int32ToRgb color =
     ((signed_drop_bit 16 color) AND 0xff, (signed_drop_bit 8 color) AND 0xff, color AND 0xff)"

text \<open>
  \<^verbatim>\<open>hexToInt32\<close>: the packed key of a hex colour, red in the low byte (the byte order
  of a pixel read through a \<^verbatim>\<open>Uint32Array\<close> on a little-endian machine). It has no
  failure path.
\<close>

definition hexToInt32 :: "string \<Rightarrow> u32" where
  "hexToInt32 hex =
     (let n = int32_of_parsed (parseInt16 (drop 1 hex)) AND 0x00ffffff;
          (r, g, b) = int32ToRgb n
      in (push_bit 16 b) OR (push_bit 8 g) OR r)"

function hex_of_nat :: "nat \<Rightarrow> string" where
  "hex_of_nat n =
     (if n < 16 then [''0123456789abcdef'' ! n]
      else hex_of_nat (n div 16) @ [''0123456789abcdef'' ! (n mod 16)])"
  by pat_completeness auto
termination
  by (relation "measure (\<lambda>n. n)") auto

declare hex_of_nat.simps [simp del]

text \<open>\<^verbatim>\<open>n.toString(16)\<close> for an integer \<open>n\<close>.\<close>

definition toString16 :: "int \<Rightarrow> string" where
  "toString16 i = (if i < 0 then CHR ''-'' # hex_of_nat (nat (- i)) else hex_of_nat (nat i))"

definition padStart2 :: "string \<Rightarrow> string" where
  "padStart2 s = replicate (2 - length s) CHR ''0'' @ s"

text \<open>\<^verbatim>\<open>hex\<close>: \<^verbatim>\<open>Math.round(value).toString(16).padStart(2, '0')\<close>.\<close>

definition hex :: "number \<Rightarrow> string" where
  "hex v = padStart2 (toString16 (math_round v))"

definition rgbToHex :: "number \<times> number \<times> number \<Rightarrow> string" where
  "rgbToHex rgb = (case rgb of (r, g, b) \<Rightarrow> CHR ''#'' # hex r @ hex g @ hex b)"

definition num_of :: "u32 \<Rightarrow> number" where
  "num_of w = real (unat w)"

definition int32ToHex :: "u32 \<Rightarrow> string" where
  "int32ToHex color =
     (case int32ToRgb color of (r, g, b) \<Rightarrow> rgbToHex (num_of r, num_of g, num_of b))"

section \<open>Hue rotation\<close>

text \<open>
  The body of the loop of \<^verbatim>\<open>applyHue\<close> and \<^verbatim>\<open>hslToRgb\<close>, which computes one output
  channel, in three steps: \<open>t3\<close> is brought into the unit interval, the channel is
  chosen between \<open>t1\<close> and \<open>t2\<close>, and the result is scaled to a byte. \<open>k\<close> is the hue
  offset of the channel (\<open>t3 = h + (1 / 3) * k\<close>).
\<close>

definition wrap_t3 :: "number \<Rightarrow> number" where
  "wrap_t3 t3 =
     (let t3 = (if t3 < 0 then add_d t3 1 else t3)
      in if 1 < t3 then sub_d t3 1 else t3)"

definition hue_value :: "number \<Rightarrow> number \<Rightarrow> number \<Rightarrow> number" where
  "hue_value t1 t2 t3 =
     (if mul_d 6 t3 < 1 then add_d t1 (mul_d (mul_d (sub_d t2 t1) 6) t3)
      else if mul_d 2 t3 < 1 then t2
      else if mul_d 3 t3 < 2 then
        add_d t1 (mul_d (mul_d (sub_d t2 t1) (sub_d (div_d 2 3) t3)) 6)
      else t1)"

definition hue_channel :: "number \<Rightarrow> number \<Rightarrow> number \<Rightarrow> number \<Rightarrow> number" where
  "hue_channel h t1 t2 k =
     mul_d (hue_value t1 t2 (wrap_t3 (add_d h (mul_d (div_d 1 3) k)))) 255"

text \<open>Saturation and lightness as both \<^verbatim>\<open>applyHue\<close> and \<^verbatim>\<open>rgbToHsl\<close> compute them.\<close>

definition lightness :: "number \<Rightarrow> number \<Rightarrow> number" where
  "lightness mn mx = div_d (add_d mn mx) 2"

definition saturation :: "number \<Rightarrow> number \<Rightarrow> number" where
  "saturation mn mx =
     (let delta = sub_d mx mn; l = lightness mn mx
      in if mx = mn then 0
         else if l \<le> 1 / 2 then div_d delta (add_d mx mn)
         else div_d delta (sub_d (sub_d 2 mx) mn))"

definition chroma_t2 :: "number \<Rightarrow> number \<Rightarrow> number" where
  "chroma_t2 s l = (if l < 1 / 2 then mul_d l (add_d 1 s) else sub_d (add_d l s) (mul_d l s))"

text \<open>
  \<^verbatim>\<open>applyHue\<close> of \<^verbatim>\<open>palette-swap.ts\<close>. Its argument is the result of \<^verbatim>\<open>int32ToRgb\<close> on
  a packed key, its result a packed colour: the loop runs over the hue offsets
  \<open>-1, 0, 1\<close> (\<^verbatim>\<open>-(2 - i - 1)\<close> for \<open>i = 0, 1, 2\<close>).
\<close>

definition applyHue :: "u32 \<times> u32 \<times> u32 \<Rightarrow> number \<Rightarrow> u32" where
  "applyHue rgb hue =
     (case rgb of (r0, g0, b0) \<Rightarrow>
        let h = div_d hue 360;
            r = div_d (num_of r0) 255;
            g = div_d (num_of g0) 255;
            b = div_d (num_of b0) 255;
            mn = min (min r g) b;
            mx = max (max r g) b;
            l = lightness mn mx;
            s = saturation mn mx
        in if s = 0 then
             (let val = mul_d l 255
              in (push_bit 16 (toInt32 val)) OR (push_bit 8 (toInt32 val)) OR toInt32 val)
           else
             (let t2 = chroma_t2 s l;
                  t1 = sub_d (mul_d 2 l) t2
              in (push_bit 16 (toInt32 (hue_channel h t1 t2 (- 1))))
                 OR (push_bit 8 (toInt32 (hue_channel h t1 t2 0)))
                 OR toInt32 (hue_channel h t1 t2 1)))"

section \<open>The remap engine of \<^verbatim>\<open>palette-swap.ts\<close>\<close>

text \<open>
  An \<^verbatim>\<open>ImageData\<close>: its \<^verbatim>\<open>Uint8ClampedArray\<close> and the \<^verbatim>\<open>Uint32Array\<close> over the same
  buffer are one list of 32-bit pixels, byte \<open>i\<close> of the data being byte \<open>i mod 4\<close> of
  pixel \<open>i div 4\<close>, lowest first (the little-endian layout the source relies on).
  The canvas is outside the repository: an image is given by the \<^verbatim>\<open>ImageData\<close> that
  \<^verbatim>\<open>getImageData\<close> reads back from it.
\<close>

record ImageData =
  width :: nat
  height :: nat
  pixels :: "u32 list"

datatype VariantName = NumberName real | StringName string

datatype Palette = ColorTable "(string \<times> string) list" | UniformHue number

record Options =
  imageName :: "string option"
  ignoreMissing :: bool

datatype error =
  InvalidColor string
  | MissingColorMapping "string list" "VariantName list" "string option"

text \<open>
  The sparse array of replacement colours of one source colour, indexed by the
  position of the variant, and the map \<^verbatim>\<open>palettes\<close> from packed keys to these arrays.
\<close>

type_synonym replacements = "nat \<rightharpoonup> u32"
type_synonym palettes = "u32 \<rightharpoonup> replacements"

fun add_table :: "nat \<Rightarrow> (string \<times> string) list \<Rightarrow> palettes \<Rightarrow> palettes" where
  "add_table i [] p = p"
| "add_table i ((key, val) # kvs) p =
     (let k = hexToInt32 key;
          v = (case p k of None \<Rightarrow> Map.empty | Some v \<Rightarrow> v)
      in add_table i kvs (p(k \<mapsto> v(i \<mapsto> hexToInt32 val))))"

fun build_palettes :: "nat \<Rightarrow> (VariantName \<times> Palette) list \<Rightarrow> palettes \<Rightarrow> palettes" where
  "build_palettes i [] p = p"
| "build_palettes i ((name, ColorTable t) # vs) p = build_palettes (Suc i) vs (add_table i t p)"
| "build_palettes i ((name, UniformHue h) # vs) p = build_palettes (Suc i) vs p"

text \<open>The fourth component of an entry of \<^verbatim>\<open>variants\<close>: the hue, or \<^verbatim>\<open>null\<close>.\<close>

definition variant_hue :: "Palette \<Rightarrow> number option" where
  "variant_hue p = (case p of UniformHue h \<Rightarrow> Some h | ColorTable t \<Rightarrow> None)"

text \<open>What the pixel loop reads, and what it updates.\<close>

record scan_env =
  env_width :: nat
  env_pixels :: "u32 list"
  env_names :: "VariantName list"
  env_hues :: "number option list"
  env_palettes :: palettes
  env_static :: "u32 set option"
  env_options :: Options

record scan_state =
  buffers :: "u32 list list"
  missing :: "(VariantName \<times> u32) list"

definition write_pixel :: "nat \<Rightarrow> nat \<Rightarrow> u32 \<Rightarrow> scan_state \<Rightarrow> scan_state" where
  "write_pixel i index v st = st\<lparr>buffers := (buffers st)[i := (buffers st ! i)[index := v]]\<rparr>"

text \<open>A read of the source \<^verbatim>\<open>Uint32Array\<close>; out of range it is \<^verbatim>\<open>undefined\<close>, which the
  bit operations of the loop turn into 0.\<close>

definition read_pixel :: "u32 list \<Rightarrow> nat \<Rightarrow> u32" where
  "read_pixel px index = (if index < length px then px ! index else 0)"

definition alpha_of :: "u32 \<Rightarrow> u32" where
  "alpha_of originalColor = (signed_drop_bit 24 originalColor) AND 0xff"

text \<open>
  The pixels of the source image are read back from a canvas (\<^verbatim>\<open>getImageData\<close>), which
  keeps its colours multiplied by their alpha: a pixel whose alpha is 0 is read back
  with every byte 0.
\<close>

definition canvas_data :: "u32 list \<Rightarrow> bool" where
  "canvas_data px = list_all (\<lambda>p. alpha_of p = 0 \<longrightarrow> p = 0) px"

definition is_static :: "scan_env \<Rightarrow> u32 \<Rightarrow> bool" where
  "is_static env color = (case env_static env of None \<Rightarrow> False | Some S \<Rightarrow> color \<in> S)"

text \<open>The truth value JavaScript gives a number that may be absent: \<^verbatim>\<open>null\<close>,
  \<^verbatim>\<open>undefined\<close> and 0 are false.\<close>

definition truthy :: "'a::zero option \<Rightarrow> 'a option" where
  "truthy v = (case v of None \<Rightarrow> None | Some x \<Rightarrow> if x = 0 then None else Some x)"

text \<open>The body of the loop over the variants, for the pixel at \<open>index\<close>.\<close>

definition variant_step :: "scan_env \<Rightarrow> nat \<Rightarrow> nat \<Rightarrow> scan_state \<Rightarrow> scan_state" where
  "variant_step env index i st =
     (let originalColor = read_pixel (env_pixels env) index;
          a = alpha_of originalColor;
          color = originalColor AND 0x00ffffff;
          isStatic = is_static env color;
          colors = (if \<not> isStatic then env_palettes env color else None)
      in if isStatic then write_pixel i index originalColor st
         else case truthy (env_hues env ! i) of
           Some hue \<Rightarrow>
             write_pixel i index ((push_bit 24 a) OR applyHue (int32ToRgb color) hue) st
         | None \<Rightarrow>
             (case truthy (case colors of None \<Rightarrow> None | Some v \<Rightarrow> v i) of
                Some c \<Rightarrow> write_pixel i index ((push_bit 24 a) OR c) st
              | None \<Rightarrow>
                  if env_static env = None then write_pixel i index originalColor st
                  else st\<lparr>missing := missing st @ [(env_names env ! i, color)]\<rparr>))"

text \<open>The body of the loop over \<open>x\<close>: a pixel of alpha 0 is skipped.\<close>

definition process_pixel :: "scan_env \<Rightarrow> nat \<Rightarrow> scan_state \<Rightarrow> scan_state" where
  "process_pixel env index st =
     (if alpha_of (read_pixel (env_pixels env) index) = 0 then st
      else fold (variant_step env index) [0..<length (env_names env)] st)"

definition process_row :: "scan_env \<Rightarrow> nat \<Rightarrow> scan_state \<Rightarrow> scan_state" where
  "process_row env y st =
     fold (\<lambda>x. process_pixel env (y * env_width env + x)) [0..<env_width env] st"

text \<open>The elements of a \<^verbatim>\<open>Set\<close> built from a list: each value once, in the order of
  its first occurrence.\<close>

fun uniq :: "'a list \<Rightarrow> 'a list \<Rightarrow> 'a list" where
  "uniq seen [] = seen"
| "uniq seen (x # xs) = uniq (if x \<in> set seen then seen else seen @ [x]) xs"

text \<open>
  The error of a missing mapping. Its message is
  \<^verbatim>\<open>There is no mapping for C in the palette for [image 'I' ]variant(s) 'V'.\<close>, with
  \<open>C\<close> the colours and \<open>V\<close> the names below, each joined by a comma; the error value
  keeps the three parts.
\<close>

definition missing_error :: "Options \<Rightarrow> (VariantName \<times> u32) list \<Rightarrow> error" where
  "missing_error options ms =
     MissingColorMapping
       (uniq [] (map (\<lambda>(name, color). int32ToHex color) ms))
       (uniq [] (map fst ms))
       (case imageName options of None \<Rightarrow> None | Some n \<Rightarrow> if n = [] then None else Some n)"

text \<open>The loop over \<open>y\<close>: the check for missing mappings is the last statement of
  its body.\<close>

fun scan_rows :: "scan_env \<Rightarrow> nat list \<Rightarrow> scan_state \<Rightarrow> error + scan_state" where
  "scan_rows env [] st = Inr st"
| "scan_rows env (y # ys) st =
     (let st' = process_row env y st
      in if \<not> ignoreMissing (env_options env) \<and> missing st' \<noteq> []
         then Inl (missing_error (env_options env) (missing st'))
         else scan_rows env ys st')"

definition make_env ::
  "ImageData \<Rightarrow> (VariantName \<times> Palette) list \<Rightarrow> string set option \<Rightarrow> Options \<Rightarrow> scan_env" where
  "make_env img inputVariants staticColors options =
     \<lparr>env_width = width img,
      env_pixels = pixels img,
      env_names = map fst inputVariants,
      env_hues = map (\<lambda>v. variant_hue (snd v)) inputVariants,
      env_palettes = build_palettes 0 inputVariants Map.empty,
      env_static = (case staticColors of None \<Rightarrow> None | Some S \<Rightarrow> Some (hexToInt32 ` S)),
      env_options = options\<rparr>"

text \<open>The first two phases of \<^verbatim>\<open>paletteSwap\<close>: the palettes are compiled, one zeroed
  buffer is allocated for each variant, and the pixels are scanned.\<close>

definition scan_image ::
  "ImageData \<Rightarrow> (VariantName \<times> Palette) list \<Rightarrow> string set option \<Rightarrow> Options
     \<Rightarrow> error + scan_state" where
  "scan_image img inputVariants staticColors options =
     scan_rows (make_env img inputVariants staticColors options) [0..<height img]
       \<lparr>buffers = replicate (length inputVariants) (replicate (width img * height img) 0),
        missing = []\<rparr>"

text \<open>Byte \<open>i\<close> of the data of an image; \<open>None\<close> is \<^verbatim>\<open>undefined\<close>, out of range.\<close>

definition byte_at :: "u32 list \<Rightarrow> nat \<Rightarrow> u8 option" where
  "byte_at px i =
     (if i < 4 * length px then Some (ucast (drop_bit (8 * (i mod 4)) (px ! (i div 4))))
      else None)"

definition equals :: "ImageData \<Rightarrow> ImageData \<Rightarrow> bool" where
  "equals a b =
     (if width a \<noteq> width b \<or> height a \<noteq> height b then False
      else list_all (\<lambda>i. byte_at (pixels a) i = byte_at (pixels b) i)
             [0..<4 * length (pixels a)])"

text \<open>
  The last loop of \<^verbatim>\<open>paletteSwap\<close>, for one variant. \<open>images\<close> gives, for a name, the
  existing image of that variant. The canvas put in the result is given by the image
  data drawn on it.
\<close>

definition lookup_image :: "(VariantName \<rightharpoonup> ImageData) option \<Rightarrow> VariantName \<Rightarrow> ImageData option" where
  "lookup_image images name = (case images of None \<Rightarrow> None | Some m \<Rightarrow> m name)"

text \<open>
  \<^verbatim>\<open>getImageData(0, 0, w, h)\<close> on the canvas an image was drawn on, the image being given
  by the data of that canvas: the rectangle of width \<open>w\<close> and height \<open>h\<close> at the origin. It
  has the size asked for, whatever the size of the canvas; a pixel of the rectangle
  that is outside the canvas is transparent black.
\<close>

definition getImageData :: "ImageData \<Rightarrow> nat \<Rightarrow> nat \<Rightarrow> ImageData" where
  "getImageData canvas w h =
     \<lparr>width = w, height = h,
      pixels = map (\<lambda>k. if k mod w < width canvas \<and> k div w < height canvas
                        then read_pixel (pixels canvas) (k div w * width canvas + k mod w)
                        else 0)
                 [0..<w * h]\<rparr>"

text \<open>\<^verbatim>\<open>existingImageData\<close>: the existing image of a variant, read back at the width and
  height of the source image.\<close>

definition existing_image ::
  "(VariantName \<rightharpoonup> ImageData) option \<Rightarrow> VariantName \<Rightarrow> nat \<Rightarrow> nat \<Rightarrow> ImageData option" where
  "existing_image images name w h =
     (case lookup_image images name of
        None \<Rightarrow> None
      | Some existingImage \<Rightarrow> Some (getImageData existingImage w h))"

definition result_step ::
  "nat \<Rightarrow> nat \<Rightarrow> (VariantName \<rightharpoonup> ImageData) option \<Rightarrow> VariantName \<times> u32 list
     \<Rightarrow> (VariantName \<times> ImageData) list \<Rightarrow> (VariantName \<times> ImageData) list" where
  "result_step w h images nb results =
     (let name = fst nb;
          newImageData = \<lparr>width = w, height = h, pixels = snd nb\<rparr>
      in case existing_image images name w h of
           None \<Rightarrow> AList.update name newImageData results
         | Some existingImageData \<Rightarrow>
             if \<not> equals newImageData existingImageData
             then AList.update name newImageData results
             else results)"

definition paletteSwap ::
  "ImageData \<Rightarrow> (VariantName \<times> Palette) list \<Rightarrow> string set option
     \<Rightarrow> (VariantName \<rightharpoonup> ImageData) option \<Rightarrow> Options
     \<Rightarrow> error + (VariantName \<times> ImageData) list" where
  "paletteSwap img inputVariants staticColors images options =
     (case scan_image img inputVariants staticColors options of
        Inl e \<Rightarrow> Inl e
      | Inr st \<Rightarrow>
          Inr (fold (result_step (width img) (height img) images)
                 (zip (map fst inputVariants) (buffers st)) []))"

text \<open>The indices the loop over \<open>x\<close> visits in row \<open>y\<close>.\<close>

definition row_indices :: "nat \<Rightarrow> nat \<Rightarrow> nat list" where
  "row_indices w y = map (\<lambda>x. y * w + x) [0..<w]"


section \<open>The colour functions of the second source file\<close>

text \<open>
  The second source file (\<^verbatim>\<open>src/unnamed/part_000\<close>) works on hex strings. Its functions
  keep their names; its \<^verbatim>\<open>applyHue\<close> is \<open>applyHue_hex\<close> here, and \<^verbatim>\<open>hex\<close> is the function
  above, which both files define alike.
\<close>

text \<open>\<^verbatim>\<open>rgbaToHex\<close>; the alpha is optional, \<open>None\<close> is \<^verbatim>\<open>undefined\<close>.\<close>

definition rgbaToHex :: "number \<Rightarrow> number \<Rightarrow> number \<Rightarrow> number option \<Rightarrow> string" where
  "rgbaToHex r g b a =
     CHR ''#'' # hex r @ hex g @ hex b
       @ (case truthy a of None \<Rightarrow> [] | Some x \<Rightarrow> if x \<noteq> 255 then hex x else [])"

text \<open>A word character of a regular expression: a letter, a digit or \<^verbatim>\<open>_\<close>.\<close>

definition is_word :: "char \<Rightarrow> bool" where
  "is_word c =
     (let n = of_char c :: nat
      in (48 \<le> n \<and> n \<le> 57) \<or> (65 \<le> n \<and> n \<le> 90) \<or> (97 \<le> n \<and> n \<le> 122) \<or> n = 95)"

text \<open>\<^verbatim>\<open>hex.match(/\w\w/g)\<close>: the successive pairs of adjacent word characters, found
  from left to right without overlap; the empty list is \<^verbatim>\<open>null\<close>.\<close>

fun match_pairs :: "string \<Rightarrow> string list" where
  "match_pairs (a # b # cs) =
     (if is_word a \<and> is_word b then [a, b] # match_pairs cs else match_pairs (b # cs))"
| "match_pairs cs = []"

text \<open>\<^verbatim>\<open>hexToRgba\<close>; a channel that is \<open>None\<close> is \<^verbatim>\<open>NaN\<close>.\<close>

definition hexToRgba :: "string \<Rightarrow> error + int option list" where
  "hexToRgba str =
     (let match = match_pairs str
      in if match = [] then Inl (InvalidColor str) else Inr (map parseInt16 match))"

definition rgbToHsl :: "number \<times> number \<times> number \<Rightarrow> number \<times> number \<times> number" where
  "rgbToHsl rgb =
     (case rgb of (r0, g0, b0) \<Rightarrow>
        let r = div_d r0 255;
            g = div_d g0 255;
            b = div_d b0 255;
            mn = min (min r g) b;
            mx = max (max r g) b;
            delta = sub_d mx mn;
            h = (if mx = mn then 0
                 else if r = mx then div_d (sub_d g b) delta
                 else if g = mx then add_d 2 (div_d (sub_d b r) delta)
                 else if b = mx then add_d 4 (div_d (sub_d r g) delta)
                 else 0);
            h = min (mul_d h 60) 360;
            h = (if h < 0 then add_d h 360 else h)
        in (h, mul_d (saturation mn mx) 100, mul_d (lightness mn mx) 100))"

text \<open>\<^verbatim>\<open>hslToRgb\<close>: its loop runs over the hue offsets \<open>1, 0, -1\<close> (\<^verbatim>\<open>-(i - 1)\<close>).\<close>

definition hslToRgb :: "number \<times> number \<times> number \<Rightarrow> number \<times> number \<times> number" where
  "hslToRgb hsl =
     (case hsl of (h0, s0, l0) \<Rightarrow>
        let h = div_d h0 360;
            s = div_d s0 100;
            l = div_d l0 100
        in if s = 0 then (let val = mul_d l 255 in (val, val, val))
           else
             (let t2 = chroma_t2 s l;
                  t1 = sub_d (mul_d 2 l) t2
              in (hue_channel h t1 t2 1, hue_channel h t1 t2 0, hue_channel h t1 t2 (- 1))))"

definition hslToHex :: "number \<times> number \<times> number \<Rightarrow> string" where
  "hslToHex hsl = (case hslToRgb hsl of (r, g, b) \<Rightarrow> rgbaToHex r g b None)"

definition applyHue_hex :: "number \<Rightarrow> number \<Rightarrow> number \<Rightarrow> number \<Rightarrow> number \<Rightarrow> string" where
  "applyHue_hex r g b a hue =
     (case rgbToHsl (r, g, b) of (h, s, l) \<Rightarrow> hslToHex (hue, s, l) @ hex a)"

text \<open>
  The words of the specification, for comparison with \<open>hexToRgba\<close>: a string that
  decomposes into whole byte pairs is \<^verbatim>\<open>#\<close> followed by hex digits, two for each byte.
\<close>

definition whole_byte_pairs :: "string \<Rightarrow> bool" where
  "whole_byte_pairs s =
     (case s of
        [] \<Rightarrow> False
      | c # t \<Rightarrow> c = CHR ''#'' \<and> even (length t) \<and> list_all (\<lambda>d. hex_digit_value d \<noteq> None) t)"

text \<open>A byte as two hex digits, and the numbers that \<open>hex\<close> prints as a byte.\<close>

definition hex_byte :: "nat \<Rightarrow> string" where
  "hex_byte n = [''0123456789abcdef'' ! (n div 16), ''0123456789abcdef'' ! (n mod 16)]"

definition rounds_to_byte :: "number \<Rightarrow> bool" where
  "rounds_to_byte v = (0 \<le> math_round v \<and> math_round v \<le> 255)"

text \<open>
  The value \<^verbatim>\<open>applyHue\<close> gives each channel of a grey pixel whose channels are \<open>v\<close>
  (\<^verbatim>\<open>l * 255\<close>, where both the least and the greatest channel are \<^verbatim>\<open>v / 255\<close>), and the
  statement that its conversion to an integer is \<open>v\<close> again.
\<close>

definition grey_value :: "nat \<Rightarrow> number" where
  "grey_value v = mul_d (lightness (div_d (real v) 255) (div_d (real v) 255)) 255"

definition grey_exact :: "nat \<Rightarrow> bool" where
  "grey_exact v = (toInt32 (grey_value v) = of_nat v)"

text \<open>A bound on the error of one operation whose exact result is at most 1023 in
  magnitude.\<close>

definition eps :: real where
  "eps = 1 / 2 ^ 43"

text \<open>\<open>all_from P lo n\<close>: the property \<open>P\<close> holds of the \<open>n\<close> numbers from \<open>lo\<close> on.\<close>

fun all_from :: "(nat \<Rightarrow> bool) \<Rightarrow> nat \<Rightarrow> nat \<Rightarrow> bool" where
  "all_from P lo 0 = True"
| "all_from P lo (Suc n) = (P (lo + n) \<and> all_from P lo n)"

text \<open>
  The exact function that \<open>hue_value\<close> computes with rounding: the share of \<open>t2\<close> in the
  channel, for \<open>t3\<close> in the unit interval. It rises from 0 to 1 on the first sixth of
  the interval, stays at 1 up to the middle, falls to 0 at two thirds and stays there.
\<close>

definition ramp :: "real \<Rightarrow> real" where
  "ramp t = max 0 (min 1 (min (6 * t) (4 - 6 * t)))"

section \<open>The remap engine of the second source file\<close>

text \<open>
  \<^verbatim>\<open>paletteSwap\<close> of \<^verbatim>\<open>src/unnamed/part_000\<close> reads the image four bytes at a time. Here
  the data of an image is the list of its pixels, each the four bytes \<open>(r, g, b, a)\<close>:
  iteration \<open>i\<close> of the pixel loop reads only the bytes \<open>i .. i + 3\<close> of the source and
  writes only the bytes \<open>i .. i + 3\<close> of the new data, which starts as zeros.
\<close>

type_synonym rgba = "nat \<times> nat \<times> nat \<times> nat"

record ByteImage =
  image_width :: nat
  image_height :: nat
  image_data :: "rgba list"

datatype Variant = HexTarget string | HueTarget number

datatype HexPalette = HexTable "string \<rightharpoonup> Variant" | HexHue number

text \<open>What the loop body does with a pixel: \<open>Keep\<close> sets the bytes of the source pixel,
  \<open>Missing\<close> adds the colour to \<^verbatim>\<open>missing\<close> and sets nothing, \<open>Parse\<close> goes on to
  \<^verbatim>\<open>hexToRgba\<close> with the new colour.\<close>

datatype action = Keep | Missing string | Parse string

definition classify :: "string set option \<Rightarrow> HexPalette \<Rightarrow> rgba \<Rightarrow> action" where
  "classify staticColors palette p =
     (case p of (r, g, b, a) \<Rightarrow>
        let hx = rgbaToHex (real r) (real g) (real b) (Some (real a));
            newColor = (case palette of HexHue h \<Rightarrow> Some (HueTarget h) | HexTable m \<Rightarrow> m hx);
            has = (case staticColors of None \<Rightarrow> False | Some S \<Rightarrow> hx \<in> S);
            unmapped = (if staticColors = None \<or> has then Keep else Missing hx)
        in case newColor of
             Some (HueTarget h) \<Rightarrow>
               if has then Keep else Parse (applyHue_hex (real r) (real g) (real b) (real a) h)
           | Some (HexTarget c) \<Rightarrow> if c = [] then unmapped else Parse c
           | None \<Rightarrow> unmapped)"

text \<open>A store into the \<^verbatim>\<open>Uint8ClampedArray\<close>: \<^verbatim>\<open>NaN\<close> and \<^verbatim>\<open>undefined\<close> are stored as 0,
  an integer is clamped to a byte.\<close>

definition clamp_store :: "int option \<Rightarrow> nat" where
  "clamp_store v = (case v of None \<Rightarrow> 0 | Some n \<Rightarrow> nat (max 0 (min 255 n)))"

text \<open>Element \<open>k\<close> of the array that \<^verbatim>\<open>hexToRgba\<close> returns; \<open>None\<close> is \<^verbatim>\<open>undefined\<close>.\<close>

definition element :: "'a list \<Rightarrow> nat \<Rightarrow> 'a option" where
  "element xs k = (if k < length xs then Some (xs ! k) else None)"

text \<open>The pixel set from the parsed colour: a channel that is \<^verbatim>\<open>undefined\<close> is stored
  as 0, an alpha that is \<^verbatim>\<open>undefined\<close> is 255.\<close>

definition parsed_pixel :: "int option list \<Rightarrow> rgba" where
  "parsed_pixel chans =
     (let channel = (\<lambda>k. case element chans k of None \<Rightarrow> 0 | Some v \<Rightarrow> clamp_store v)
      in (channel 0, channel 1, channel 2,
          case element chans 3 of None \<Rightarrow> 255 | Some v \<Rightarrow> clamp_store v))"

text \<open>One iteration of the pixel loop: the new pixel, and the colour added to
  \<^verbatim>\<open>missing\<close> if there is one.\<close>

definition remap_pixel ::
  "string set option \<Rightarrow> HexPalette \<Rightarrow> rgba \<Rightarrow> error + (rgba \<times> string option)" where
  "remap_pixel staticColors palette p =
     (case classify staticColors palette p of
        Keep \<Rightarrow> Inr (p, None)
      | Missing hx \<Rightarrow> Inr ((0, 0, 0, 0), Some hx)
      | Parse c \<Rightarrow>
          (case hexToRgba c of
             Inl e \<Rightarrow> Inl e
           | Inr chans \<Rightarrow> Inr (parsed_pixel chans, None)))"

text \<open>The pixel loop, with the new data and the set \<^verbatim>\<open>missing\<close> (its elements in the
  order they were added).\<close>

fun remap_pixels ::
  "string set option \<Rightarrow> HexPalette \<Rightarrow> rgba list \<Rightarrow> rgba list \<times> string list
     \<Rightarrow> error + (rgba list \<times> string list)" where
  "remap_pixels staticColors palette [] acc = Inr acc"
| "remap_pixels staticColors palette (p # ps) acc =
     (case remap_pixel staticColors palette p of
        Inl e \<Rightarrow> Inl e
      | Inr (q, m) \<Rightarrow>
          remap_pixels staticColors palette ps
            (fst acc @ [q],
             case m of
               None \<Rightarrow> snd acc
             | Some hx \<Rightarrow> if hx \<in> set (snd acc) then snd acc else snd acc @ [hx]))"

text \<open>The body of the loop over the variants, up to the check for missing colours.\<close>

definition remap_variant ::
  "ByteImage \<Rightarrow> string set option \<Rightarrow> Options \<Rightarrow> VariantName \<times> HexPalette
     \<Rightarrow> error + ByteImage" where
  "remap_variant img staticColors options v =
     (case remap_pixels staticColors (snd v) (image_data img) ([], []) of
        Inl e \<Rightarrow> Inl e
      | Inr (newData, missingColors) \<Rightarrow>
          if \<not> ignoreMissing options \<and> missingColors \<noteq> []
          then Inl (MissingColorMapping missingColors [fst v]
                 (case imageName options of
                    None \<Rightarrow> None
                  | Some n \<Rightarrow> if n = [] then None else Some n))
          else Inr \<lparr>image_width = image_width img, image_height = image_height img,
                    image_data = newData\<rparr>)"

definition equals_bytes :: "ByteImage \<Rightarrow> ByteImage \<Rightarrow> bool" where
  "equals_bytes a b =
     (if image_width a \<noteq> image_width b \<or> image_height a \<noteq> image_height b then False
      else list_all (\<lambda>i. i < length (image_data b) \<and> image_data a ! i = image_data b ! i)
             [0..<length (image_data a)])"

text \<open>\<^verbatim>\<open>getImageData(0, 0, w, h)\<close> on the canvas of an existing image, as
  \<open>getImageData\<close> above: the rectangle of the size asked for, transparent black outside
  the canvas.\<close>

definition read_back :: "ByteImage \<Rightarrow> nat \<Rightarrow> nat \<Rightarrow> ByteImage" where
  "read_back canvas w h =
     \<lparr>image_width = w, image_height = h,
      image_data =
        map (\<lambda>k. if k mod w < image_width canvas \<and> k div w < image_height canvas
                    \<and> k div w * image_width canvas + k mod w < length (image_data canvas)
                 then image_data canvas ! (k div w * image_width canvas + k mod w)
                 else (0, 0, 0, 0))
          [0..<w * h]\<rparr>"

text \<open>The loop over the variants. \<open>images\<close> gives, for a name, the existing image of
  that variant; it is read back at the width and height of the source.\<close>

fun remap_variants ::
  "ByteImage \<Rightarrow> string set option \<Rightarrow> (VariantName \<rightharpoonup> ByteImage) option \<Rightarrow> Options
     \<Rightarrow> (VariantName \<times> HexPalette) list \<Rightarrow> (VariantName \<times> ByteImage) list
     \<Rightarrow> error + (VariantName \<times> ByteImage) list" where
  "remap_variants img staticColors images options [] results = Inr results"
| "remap_variants img staticColors images options (v # vs) results =
     (case remap_variant img staticColors options v of
        Inl e \<Rightarrow> Inl e
      | Inr newImageData \<Rightarrow>
          remap_variants img staticColors images options vs
            (if (case (case images of None \<Rightarrow> None | Some m \<Rightarrow> m (fst v)) of
                   None \<Rightarrow> True
                 | Some existingImage \<Rightarrow>
                     \<not> equals_bytes newImageData
                         (read_back existingImage (image_width img) (image_height img)))
             then AList.update (fst v) newImageData results
             else results))"

definition paletteSwap_hex ::
  "ByteImage \<Rightarrow> (VariantName \<times> HexPalette) list \<Rightarrow> string set option
     \<Rightarrow> (VariantName \<rightharpoonup> ByteImage) option \<Rightarrow> Options
     \<Rightarrow> error + (VariantName \<times> ByteImage) list" where
  "paletteSwap_hex img variants staticColors images options =
     remap_variants img staticColors images options variants []"

section \<open>Exact colours\<close>

text \<open>
  The function \<open>ramp\<close> vanishes outside the interval from 0 to two thirds. The sum of
  its translates by \<open>-1\<close>, 0 and 1 is \<open>ramp\<close> continued with period 1, on the interval
  from \<open>-1\<close> to 2: the share of \<open>t2\<close> in a channel as a function of the hue, in turns,
  before the hue is brought back into the unit interval.
\<close>

definition ramp_wrapped :: "real \<Rightarrow> real" where
  "ramp_wrapped u = ramp (u - 1) + ramp u + ramp (u + 1)"

text \<open>
  The channels of the colour of hue \<open>H\<close>, in degrees, whose least channel is \<open>mn\<close> and
  whose greatest is \<open>mx\<close>, in exact arithmetic: red is \<open>rotated H mn mx 1\<close>, green
  \<open>rotated H mn mx 0\<close> and blue \<open>rotated H mn mx (- 1)\<close>. This is what \<^verbatim>\<open>applyHue\<close> and
  \<^verbatim>\<open>hslToRgb\<close> compute with rounding, \<open>t1\<close> being the least channel and \<open>t2\<close> the
  greatest.
\<close>

definition rotated :: "real \<Rightarrow> real \<Rightarrow> real \<Rightarrow> real \<Rightarrow> real" where
  "rotated H mn mx k = mn + (mx - mn) * ramp_wrapped (H / 360 + k / 3)"

text \<open>The least and the greatest channel of a colour of three bytes, as fractions
  of 255.\<close>

definition least_channel :: "u32 \<times> u32 \<times> u32 \<Rightarrow> real" where
  "least_channel rgb = (case rgb of (r, g, b) \<Rightarrow> min (min (num_of r) (num_of g)) (num_of b) / 255)"

definition greatest_channel :: "u32 \<times> u32 \<times> u32 \<Rightarrow> real" where
  "greatest_channel rgb = (case rgb of (r, g, b) \<Rightarrow> max (max (num_of r) (num_of g)) (num_of b) / 255)"

text \<open>\<open>truncates c x\<close>: the byte \<open>c\<close> is the number \<open>x\<close> cut to an integer, \<open>x\<close> being known
  up to one part in ten thousand.\<close>

definition truncates :: "real \<Rightarrow> real \<Rightarrow> bool" where
  "truncates c x = (x - 1 - 1 / 10000 < c \<and> c \<le> x + 1 / 10000)"

text \<open>
  The hue of a colour in degrees, as \<^verbatim>\<open>rgbToHsl\<close> defines it, in exact arithmetic.
\<close>

definition hue_of :: "real \<times> real \<times> real \<Rightarrow> real" where
  "hue_of rgb =
     (case rgb of (r, g, b) \<Rightarrow>
        let mn = min (min r g) b;
            mx = max (max r g) b;
            delta = mx - mn;
            h = (if mx = mn then 0
                 else if r = mx then (g - b) / delta
                 else if g = mx then 2 + (b - r) / delta
                 else if b = mx then 4 + (r - g) / delta
                 else 0);
            h = min (h * 60) 360
        in if h < 0 then h + 360 else h)"

(*DEFS-END*)

section \<open>Evaluating the model\<close>

lemma bitlen_numeral [simp]:
  "bitlen 1 = 1"
  "bitlen (numeral Num.One) = 1"
  "bitlen (numeral (Num.Bit0 n)) = bitlen (numeral n) + 1"
  "bitlen (numeral (Num.Bit1 n)) = bitlen (numeral n) + 1"
proof -
  show "bitlen 1 = 1" by (simp add: compute_bitlen)
  then show "bitlen (numeral Num.One) = 1" by simp
  have "bitlen (numeral (Num.Bit0 n)) = bitlen (numeral (Num.Bit0 n) div 2) + 1"
    by (subst compute_bitlen) simp
  then show "bitlen (numeral (Num.Bit0 n)) = bitlen (numeral n) + 1" by simp
  have "bitlen (numeral (Num.Bit1 n)) = bitlen (numeral (Num.Bit1 n) div 2) + 1"
    by (subst compute_bitlen) simp
  then show "bitlen (numeral (Num.Bit1 n)) = bitlen (numeral n) + 1" by simp
qed

lemmas fl_eval = fl_def fl_exp_def ilog2_def rne_def pow2_def Let_def
lemmas parse_eval = hexToInt32_def int32_of_parsed_def parseInt16_def hex_digit_value_def
  is_space_def int32ToRgb_def toInt32_def
lemma hex_of_nat_numeral:
  "hex_of_nat (numeral k) =
     (if (numeral k :: nat) < 16 then [''0123456789abcdef'' ! numeral k]
      else hex_of_nat (numeral k div 16) @ [''0123456789abcdef'' ! (numeral k mod 16)])"
  "hex_of_nat 0 = ''0''"
  "hex_of_nat (Suc 0) = ''1''"
  by (subst hex_of_nat.simps, simp)+

lemmas hex_eval = int32ToHex_def rgbToHex_def hex_def padStart2_def toString16_def
  math_round_def num_of_def int32ToRgb_def hex_of_nat_numeral

lemmas op_eval = add_d_def sub_d_def mul_d_def div_d_def lightness_def saturation_def
  chroma_t2_def hue_channel_def hue_value_def wrap_t3_def

lemma replicate_numeral: "replicate (numeral k) x = x # replicate (pred_numeral k) x"
  by (simp add: numeral_eq_Suc)

lemmas list_eval = upt_conv_Cons replicate_numeral

lemmas scan_eval = scan_image_def make_env_def process_row_def
  process_pixel_def variant_step_def write_pixel_def read_pixel_def alpha_of_def
  is_static_def truthy_def missing_error_def variant_hue_def
lemmas result_eval = paletteSwap_def result_step_def existing_image_def lookup_image_def
  getImageData_def read_pixel_def equals_def byte_at_def

lemma key_black: "hexToInt32 ''#000000'' = 0"
  by (simp add: parse_eval fl_eval)

lemma key_red: "hexToInt32 ''#ff0000'' = 0xff"
  by (simp add: parse_eval fl_eval)

lemma key_white: "hexToInt32 ''#ffffff'' = 0xffffff"
  by (simp add: parse_eval fl_eval)

lemma hex_of_red_key: "int32ToHex 0xff = ''#0000ff''"
  by (simp add: hex_eval)

section \<open>The pixel loop writes each pixel once\<close>

lemma write_pixel_missing [simp]: "missing (write_pixel i k v st) = missing st"
  by (simp add: write_pixel_def)

lemma write_pixel_length [simp]: "length (buffers (write_pixel i k v st)) = length (buffers st)"
  by (simp add: write_pixel_def)

lemma write_pixel_length_nth [simp]:
  "length (buffers (write_pixel i k v st) ! j) = length (buffers st ! j)"
  by (cases "i < length (buffers st)"; cases "j = i")
    (simp_all add: write_pixel_def list_update_beyond)

lemma write_pixel_other_index:
  "k' \<noteq> k \<Longrightarrow> buffers (write_pixel i k v st) ! j ! k' = buffers st ! j ! k'"
  by (cases "i < length (buffers st)"; cases "j = i")
    (simp_all add: write_pixel_def list_update_beyond)

lemma write_pixel_other_buffer:
  "j \<noteq> i \<Longrightarrow> buffers (write_pixel i k v st) ! j = buffers st ! j"
  by (simp add: write_pixel_def)

lemma write_pixel_same:
  "i < length (buffers st) \<Longrightarrow> k < length (buffers st ! i)
     \<Longrightarrow> buffers (write_pixel i k v st) ! i ! k = v"
  by (simp add: write_pixel_def)

lemma variant_step_cases:
  "(\<exists>v. variant_step env idx i st = write_pixel i idx v st)
     \<or> (\<exists>m. variant_step env idx i st = st\<lparr>missing := missing st @ [m]\<rparr>)"
  by (auto simp: variant_step_def Let_def split: option.splits)

lemma variant_step_length [simp]:
  "length (buffers (variant_step env idx i st)) = length (buffers st)"
  using variant_step_cases [of env idx i st] by auto

lemma variant_step_length_nth [simp]:
  "length (buffers (variant_step env idx i st) ! j) = length (buffers st ! j)"
  using variant_step_cases [of env idx i st] by auto

lemma variant_step_other_index:
  "k \<noteq> idx \<Longrightarrow> buffers (variant_step env idx i st) ! j ! k = buffers st ! j ! k"
  using variant_step_cases [of env idx i st] by (auto simp: write_pixel_other_index)

lemma variant_step_other_buffer:
  "j \<noteq> i \<Longrightarrow> buffers (variant_step env idx i st) ! j = buffers st ! j"
  using variant_step_cases [of env idx i st] by (auto simp: write_pixel_other_buffer)

lemma fold_variant_step_length [simp]:
  "length (buffers (fold (variant_step env idx) is st)) = length (buffers st)"
  by (induction "is" arbitrary: st) simp_all

lemma fold_variant_step_length_nth [simp]:
  "length (buffers (fold (variant_step env idx) is st) ! j) = length (buffers st ! j)"
  by (induction "is" arbitrary: st) simp_all

lemma fold_variant_step_other_index:
  "k \<noteq> idx \<Longrightarrow> buffers (fold (variant_step env idx) is st) ! j ! k = buffers st ! j ! k"
  by (induction "is" arbitrary: st) (simp_all add: variant_step_other_index)

lemma fold_variant_step_other_buffer:
  "j \<notin> set is \<Longrightarrow> buffers (fold (variant_step env idx) is st) ! j = buffers st ! j"
  by (induction "is" arbitrary: st) (simp_all add: variant_step_other_buffer)

lemma fold_variant_step_written:
  assumes "\<And>st. variant_step env idx i st = write_pixel i idx v st"
    and "i \<in> set is" and "i < length (buffers st)" and "idx < length (buffers st ! i)"
  shows "buffers (fold (variant_step env idx) is st) ! i ! idx = v"
  using assms(2-4)
proof (induction "is" arbitrary: st)
  case Nil
  then show ?case by simp
next
  case (Cons x xs)
  show ?case
  proof (cases "i \<in> set xs")
    case True
    with Cons show ?thesis by simp
  next
    case False
    with Cons.prems have "x = i" by simp
    with False Cons.prems show ?thesis
      by (simp add: fold_variant_step_other_buffer assms(1) write_pixel_same)
  qed
qed

lemma process_pixel_length [simp]:
  "length (buffers (process_pixel env idx st)) = length (buffers st)"
  by (simp add: process_pixel_def)

lemma process_pixel_length_nth [simp]:
  "length (buffers (process_pixel env idx st) ! j) = length (buffers st ! j)"
  by (simp add: process_pixel_def)

lemma process_pixel_other_index:
  "k \<noteq> idx \<Longrightarrow> buffers (process_pixel env idx st) ! j ! k = buffers st ! j ! k"
  by (simp add: process_pixel_def fold_variant_step_other_index)

lemma fold_process_pixel_length [simp]:
  "length (buffers (fold (process_pixel env) is st)) = length (buffers st)"
  by (induction "is" arbitrary: st) simp_all

lemma fold_process_pixel_length_nth [simp]:
  "length (buffers (fold (process_pixel env) is st) ! j) = length (buffers st ! j)"
  by (induction "is" arbitrary: st) simp_all

lemma fold_process_pixel_skipped:
  assumes "\<And>st. buffers (process_pixel env idx st) ! j ! idx = buffers st ! j ! idx"
  shows "buffers (fold (process_pixel env) is st) ! j ! idx = buffers st ! j ! idx"
proof (induction "is" arbitrary: st)
  case Nil
  then show ?case by simp
next
  case (Cons x xs)
  then show ?case
    by (cases "x = idx") (simp_all add: assms process_pixel_other_index)
qed

lemma fold_process_pixel_untouched:
  "idx \<notin> set is \<Longrightarrow> buffers (fold (process_pixel env) is st) ! j ! idx = buffers st ! j ! idx"
  by (induction "is" arbitrary: st) (simp_all add: process_pixel_other_index)

lemma fold_process_pixel_written:
  assumes "\<And>st. i < length (buffers st) \<Longrightarrow> idx < length (buffers st ! i)
             \<Longrightarrow> buffers (process_pixel env idx st) ! i ! idx = v"
    and "idx \<in> set is" and "i < length (buffers st)" and "idx < length (buffers st ! i)"
  shows "buffers (fold (process_pixel env) is st) ! i ! idx = v"
  using assms(2-4)
proof (induction "is" arbitrary: st)
  case Nil
  then show ?case by simp
next
  case (Cons x xs)
  show ?case
  proof (cases "idx \<in> set xs")
    case True
    with Cons show ?thesis by simp
  next
    case False
    with Cons.prems have "x = idx" by simp
    with False Cons.prems show ?thesis
      by (simp add: fold_process_pixel_untouched assms(1))
  qed
qed

lemma process_row_fold:
  "process_row env y st = fold (process_pixel env) (row_indices (env_width env) y) st"
  by (simp add: process_row_def row_indices_def fold_map comp_def)

lemma fold_process_row:
  "fold (process_row env) ys st
     = fold (process_pixel env) (concat (map (row_indices (env_width env)) ys)) st"
  by (induction ys arbitrary: st) (simp_all add: process_row_fold)

lemma scan_rows_Inr:
  "scan_rows env ys st = Inr st' \<Longrightarrow> st' = fold (process_row env) ys st"
  by (induction ys arbitrary: st) (auto simp: Let_def split: if_splits)

lemma index_visited:
  assumes "idx < w * h"
  shows "idx \<in> set (concat (map (row_indices w) [0..<h]))"
proof -
  from assms have w: "0 < w" by (cases w) simp_all
  have y: "idx div w < h"
    using assms w by (simp add: less_mult_imp_div_less mult.commute)
  have "idx = (idx div w) * w + idx mod w" by simp
  moreover have "idx mod w \<in> set [0..<w]" using w by simp
  ultimately have "idx \<in> set (row_indices w (idx div w))"
    unfolding row_indices_def set_map by (rule image_eqI)
  with y show ?thesis by auto
qed

lemma scan_image_buffers:
  assumes "scan_image img vs sc opts = Inr st"
  shows "st = fold (process_pixel (make_env img vs sc opts))
               (concat (map (row_indices (width img)) [0..<height img]))
               \<lparr>buffers = replicate (length vs) (replicate (width img * height img) 0),
                missing = []\<rparr>"
  using scan_rows_Inr [OF assms [unfolded scan_image_def]]
  by (simp add: fold_process_row make_env_def)

lemma process_pixel_transparent:
  "alpha_of (read_pixel (env_pixels env) idx) = 0 \<Longrightarrow> process_pixel env idx st = st"
  by (simp add: process_pixel_def)

lemma variant_step_static:
  "is_static env (read_pixel (env_pixels env) idx AND 0x00ffffff)
     \<Longrightarrow> variant_step env idx i st = write_pixel i idx (read_pixel (env_pixels env) idx) st"
  by (simp add: variant_step_def Let_def)


section \<open>Transparent and static pixels\<close>

text \<open>
  Claim C4. A source pixel whose alpha is 0 is skipped: the loop body does nothing for
  it, whatever the variants, the static colours and the tables are, so nothing is
  recorded as missing for it, and in the buffer of every variant the pixel keeps the
  value 0 the buffer was allocated with. The source pixels are the data of a canvas,
  where a pixel of alpha 0 is 0: so the pixel of every variant is the source pixel.
\<close>

theorem transparent_pixel_copied:
  assumes "scan_image img inputVariants staticColors options = Inr st"
    and "canvas_data (pixels img)"
    and "idx < width img * height img"
    and "idx < length (pixels img)"
    and "alpha_of (pixels img ! idx) = 0"
    and "i < length inputVariants"
  shows "buffers st ! i ! idx = pixels img ! idx
    \<and> (\<forall>st'. process_pixel (make_env img inputVariants staticColors options) idx st' = st')"
proof -
  let ?env = "make_env img inputVariants staticColors options"
  have skip: "process_pixel ?env idx st' = st'" for st'
    using assms(4,5) by (simp add: process_pixel_transparent make_env_def read_pixel_def)
  have "buffers st ! i ! idx
          = buffers \<lparr>buffers = replicate (length inputVariants)
                (replicate (width img * height img) 0), missing = []\<rparr> ! i ! idx"
    unfolding scan_image_buffers [OF assms(1)]
    by (rule fold_process_pixel_skipped) (simp add: skip)
  with assms(3,6) have "buffers st ! i ! idx = 0" by simp
  moreover from assms(2,4,5) have "pixels img ! idx = 0"
    by (simp add: canvas_data_def list_all_length)
  ultimately show ?thesis using skip by simp
qed

theorem transparent_pixel_copied_witness:
  "scan_image \<lparr>width = 2, height = 1, pixels = [0, 0xff0000ff]\<rparr>
       [(NumberName 1, ColorTable [])] None \<lparr>imageName = None, ignoreMissing = False\<rparr>
     = Inr \<lparr>buffers = [[0, 0xff0000ff]], missing = []\<rparr>
   \<and> canvas_data [0, 0xff0000ff]
   \<and> alpha_of ([0, 0xff0000ff] ! 0) = 0
   \<and> buffers \<lparr>buffers = [[0, 0xff0000ff :: u32]], missing = []\<rparr> ! 0 ! 0 = [0, 0xff0000ff] ! 0
   \<and> (\<forall>st'. process_pixel
          (make_env \<lparr>width = 2, height = 1, pixels = [0, 0xff0000ff]\<rparr>
             [(NumberName 1, ColorTable [])] None \<lparr>imageName = None, ignoreMissing = False\<rparr>)
          0 st' = st')"
proof -
  let ?img = "\<lparr>width = 2, height = 1, pixels = [0, 0xff0000ff :: u32]\<rparr>"
  have scan: "scan_image ?img [(NumberName 1, ColorTable [])] None
                \<lparr>imageName = None, ignoreMissing = False\<rparr>
              = Inr \<lparr>buffers = [[0, 0xff0000ff]], missing = []\<rparr>"
    by (simp add: scan_eval list_eval)
  have canvas: "canvas_data (pixels ?img)"
    by (simp add: canvas_data_def alpha_of_def)
  have alpha: "alpha_of (pixels ?img ! 0) = 0"
    by (simp add: alpha_of_def)
  from transparent_pixel_copied [OF scan canvas _ _ alpha, of 0] scan canvas alpha
  show ?thesis by simp
qed


text \<open>
  Claim C5. A pixel that is not transparent and whose key (the pixel without its
  alpha byte) is the key of one of the static colours is, in the buffer of every
  variant, the source pixel; and the loop body records nothing as missing for it.
\<close>

theorem static_pixel_copied:
  assumes "scan_image img inputVariants (Some S) options = Inr st"
    and "idx < width img * height img"
    and "idx < length (pixels img)"
    and "alpha_of (pixels img ! idx) \<noteq> 0"
    and "(pixels img ! idx) AND 0x00ffffff \<in> hexToInt32 ` S"
    and "i < length inputVariants"
  shows "buffers st ! i ! idx = pixels img ! idx
    \<and> (\<forall>st'. missing (process_pixel (make_env img inputVariants (Some S) options) idx st')
               = missing st')"
proof -
  let ?env = "make_env img inputVariants (Some S) options"
  have rd: "read_pixel (env_pixels ?env) idx = pixels img ! idx"
    using assms(3) by (simp add: make_env_def read_pixel_def)
  have static: "is_static ?env (read_pixel (env_pixels ?env) idx AND 0x00ffffff)"
    using assms(5) by (simp add: rd) (simp add: is_static_def make_env_def)
  have step: "variant_step ?env idx j st' = write_pixel j idx (pixels img ! idx) st'" for j st'
    using variant_step_static [OF static] by (simp add: rd)
  have names: "length (env_names ?env) = length inputVariants"
    by (simp add: make_env_def)
  have written: "buffers (process_pixel ?env idx st') ! i ! idx = pixels img ! idx"
    if "i < length (buffers st')" "idx < length (buffers st' ! i)" for st'
    using assms(4,6) that
    by (simp add: process_pixel_def rd names fold_variant_step_written [OF step])
  have no_missing: "missing (fold (variant_step ?env idx) js st') = missing st'" for js st'
    by (induction js arbitrary: st') (simp_all add: step)
  have "buffers st ! i ! idx = pixels img ! idx"
    unfolding scan_image_buffers [OF assms(1)]
    by (rule fold_process_pixel_written [OF written index_visited [OF assms(2)]])
      (use assms(2,6) in simp_all)
  moreover have "missing (process_pixel ?env idx st') = missing st'" for st'
    by (simp add: process_pixel_def no_missing)
  ultimately show ?thesis by simp
qed


theorem static_pixel_copied_witness:
  "scan_image \<lparr>width = 1, height = 1, pixels = [0xff000000]\<rparr> [(NumberName 1, UniformHue 120)]
       (Some {''#000000''}) \<lparr>imageName = None, ignoreMissing = False\<rparr>
     = Inr \<lparr>buffers = [[0xff000000]], missing = []\<rparr>
   \<and> alpha_of ([0xff000000] ! 0) \<noteq> 0
   \<and> ([0xff000000] ! 0) AND (0x00ffffff :: u32) \<in> hexToInt32 ` {''#000000''}
   \<and> buffers \<lparr>buffers = [[0xff000000 :: u32]], missing = []\<rparr> ! 0 ! 0 = 0xff000000"
proof -
  let ?img = "\<lparr>width = 1, height = 1, pixels = [0xff000000 :: u32]\<rparr>"
  have scan: "scan_image ?img [(NumberName 1, UniformHue 120)] (Some {''#000000''})
                \<lparr>imageName = None, ignoreMissing = False\<rparr>
              = Inr \<lparr>buffers = [[0xff000000]], missing = []\<rparr>"
    by (simp add: scan_eval key_black list_eval)
  have alpha: "alpha_of (pixels ?img ! 0) \<noteq> 0"
    by (simp add: alpha_of_def)
  have key: "(pixels ?img ! 0) AND 0x00ffffff \<in> hexToInt32 ` {''#000000''}"
    by (simp add: key_black)
  from static_pixel_copied [OF scan _ _ alpha key, of 0] scan alpha key
  show ?thesis by simp
qed

section \<open>Comparing with the existing images\<close>







lemma getImageData_size [simp]:
  "width (getImageData canvas w h) = w" "height (getImageData canvas w h) = h"
  "length (pixels (getImageData canvas w h)) = w * h"
  by (simp_all add: getImageData_def)




section \<open>Table entries and missing mappings\<close>

text \<open>
  Claim C2 at a table whose target colour is black. The key of \<^verbatim>\<open>#000000\<close> is 0, and the
  loop tests the entry it found for truth (\<^verbatim>\<open>colors?.[i]\<close>), so the entry counts as
  absent: with no static colours the opaque red pixel is copied unchanged where the
  claim has opaque black (\<open>0xff000000\<close>), and with static colours the call fails for
  want of a mapping, naming the colour it has a mapping for.
\<close>

theorem black_target_ignored:
  "paletteSwap \<lparr>width = 1, height = 1, pixels = [0xff0000ff]\<rparr>
     [(NumberName 1, ColorTable [(''#ff0000'', ''#000000'')])] None None
     \<lparr>imageName = None, ignoreMissing = False\<rparr>
   = Inr [(NumberName 1, \<lparr>width = 1, height = 1, pixels = [0xff0000ff]\<rparr>)]
   \<and> paletteSwap \<lparr>width = 1, height = 1, pixels = [0xff0000ff]\<rparr>
     [(NumberName 1, ColorTable [(''#ff0000'', ''#000000'')])] (Some {''#ffffff''}) None
     \<lparr>imageName = None, ignoreMissing = False\<rparr>
   = Inl (MissingColorMapping [''#0000ff''] [NumberName 1] None)"
proof -
  let ?img = "\<lparr>width = 1, height = 1, pixels = [0xff0000ff :: u32]\<rparr>"
  let ?vs = "[(NumberName 1, ColorTable [(''#ff0000'', ''#000000'')])]"
  let ?opts = "\<lparr>imageName = None, ignoreMissing = False\<rparr>"
  have "scan_image ?img ?vs None ?opts = Inr \<lparr>buffers = [[0xff0000ff]], missing = []\<rparr>"
    by (simp add: scan_eval key_black key_red list_eval)
  then have "paletteSwap ?img ?vs None None ?opts = Inr [(NumberName 1, ?img)]"
    unfolding paletteSwap_def by (simp add: result_eval)
  moreover have "scan_image ?img ?vs (Some {''#ffffff''}) ?opts
                   = Inl (MissingColorMapping [''#0000ff''] [NumberName 1] None)"
    by (simp add: scan_eval key_black key_red key_white hex_of_red_key list_eval)
  then have "paletteSwap ?img ?vs (Some {''#ffffff''}) None ?opts
               = Inl (MissingColorMapping [''#0000ff''] [NumberName 1] None)"
    unfolding paletteSwap_def by simp
  ultimately show ?thesis by simp
qed

text \<open>
  Claim C1 at an image of two rows, an opaque red pixel above an opaque green one,
  neither static nor mapped. The check for missing mappings is inside the loop over
  the rows: the call fails after the first row, the green pixel is never looked at and
  its colour is not in the message. The one colour listed is that of the red pixel
  \<^verbatim>\<open>#ff0000\<close>, printed as \<^verbatim>\<open>#0000ff\<close>: \<^verbatim>\<open>int32ToHex\<close> reads the key, which has red in its
  low byte, as if red were in the high byte.
\<close>

theorem missing_raised_after_first_row:
  "paletteSwap \<lparr>width = 1, height = 2, pixels = [0xff0000ff, 0xff00ff00]\<rparr>
     [(NumberName 1, ColorTable [])] (Some {''#000000''}) None
     \<lparr>imageName = None, ignoreMissing = False\<rparr>
   = Inl (MissingColorMapping [''#0000ff''] [NumberName 1] None)"
proof -
  have "scan_image \<lparr>width = 1, height = 2, pixels = [0xff0000ff, 0xff00ff00]\<rparr>
          [(NumberName 1, ColorTable [])] (Some {''#000000''})
          \<lparr>imageName = None, ignoreMissing = False\<rparr>
        = Inl (MissingColorMapping [''#0000ff''] [NumberName 1] None)"
    by (simp add: scan_eval key_black hex_of_red_key list_eval)
  then show ?thesis
    unfolding paletteSwap_def by simp
qed

section \<open>Hex strings\<close>

lemma pad_hex_of_nat:
  assumes "n \<le> 255"
  shows "padStart2 (hex_of_nat n) = hex_byte n"
proof (cases "n < 16")
  case True
  then show ?thesis
    by (simp add: hex_of_nat.simps [of n] padStart2_def hex_byte_def)
next
  case False
  with assms have "n div 16 < 16" by simp
  with False show ?thesis
    by (simp add: hex_of_nat.simps [of n] hex_of_nat.simps [of "n div 16"]
        padStart2_def hex_byte_def)
qed

lemma hex_rounds_to_byte:
  assumes "rounds_to_byte v"
  shows "hex v = hex_byte (nat (math_round v))"
proof -
  from assms have "nat (math_round v) \<le> 255" and "\<not> math_round v < 0"
    by (simp_all add: rounds_to_byte_def nat_le_iff)
  then show ?thesis
    by (simp add: hex_def toString16_def pad_hex_of_nat)
qed

text \<open>
  Claim C9, as the code has it. \<^verbatim>\<open>rgbaToHex\<close> prints each channel, rounded to the nearest
  integer, as a byte of two hex digits, and appends the alpha in the same way exactly
  when an alpha is given that is neither 0 nor 255: the test \<^verbatim>\<open>a && a !== 255\<close> takes the
  alpha 0 for an absent one. The channels are numbers that round to a byte.
\<close>

theorem rgbaToHex_format:
  assumes "rounds_to_byte r" and "rounds_to_byte g" and "rounds_to_byte b"
    and "case a of None \<Rightarrow> True | Some x \<Rightarrow> rounds_to_byte x"
  shows "rgbaToHex r g b a =
           CHR ''#'' # hex_byte (nat (math_round r)) @ hex_byte (nat (math_round g))
             @ hex_byte (nat (math_round b))
             @ (case a of
                  None \<Rightarrow> []
                | Some x \<Rightarrow> if x = 0 \<or> x = 255 then [] else hex_byte (nat (math_round x)))"
  using assms
  by (simp add: rgbaToHex_def hex_rounds_to_byte truthy_def split: option.splits)

theorem rgbaToHex_format_witness:
  "rounds_to_byte 255 \<and> rounds_to_byte (1 / 2) \<and> rounds_to_byte 0 \<and> rounds_to_byte 128
   \<and> rgbaToHex 255 (1 / 2) 0 (Some 128) = ''#ff010080''"
proof -
  have r: "rounds_to_byte 255" "rounds_to_byte (1 / 2)" "rounds_to_byte 0"
    by (simp_all add: rounds_to_byte_def math_round_def)
  have a: "case Some (128 :: real) of None \<Rightarrow> True | Some x \<Rightarrow> rounds_to_byte x"
    by (simp add: rounds_to_byte_def math_round_def)
  from rgbaToHex_format [OF r a] r a show ?thesis
    by (simp add: hex_byte_def math_round_def)
qed

text \<open>The claim as the specification words it has the alpha 0, which is present and is
  not 255, appended; it is not.\<close>

theorem alpha_zero_not_appended:
  "rgbaToHex 0 0 0 (Some 0) = ''#000000''"
  by (simp add: rgbaToHex_def truthy_def hex_def math_round_def toString16_def padStart2_def
      hex_of_nat_numeral)

lemma match_pairs_empty_iff:
  "match_pairs s = [] \<longleftrightarrow> \<not> (\<exists>i. Suc i < length s \<and> is_word (s ! i) \<and> is_word (s ! Suc i))"
proof (induction s rule: match_pairs.induct)
  case (1 a b cs)
  show ?case
  proof (cases "is_word a \<and> is_word b")
    case True
    then have "Suc 0 < length (a # b # cs) \<and> is_word ((a # b # cs) ! 0)
        \<and> is_word ((a # b # cs) ! Suc 0)" by simp
    then have "\<exists>i. Suc i < length (a # b # cs) \<and> is_word ((a # b # cs) ! i)
        \<and> is_word ((a # b # cs) ! Suc i)" by blast
    with True show ?thesis by simp
  next
    case False
    have shift: "(\<exists>i. Suc i < length (a # b # cs) \<and> is_word ((a # b # cs) ! i)
              \<and> is_word ((a # b # cs) ! Suc i))
        \<longleftrightarrow> (\<exists>i. Suc i < length (b # cs) \<and> is_word ((b # cs) ! i)
              \<and> is_word ((b # cs) ! Suc i))"
      (is "?L \<longleftrightarrow> ?R")
    proof
      assume ?L
      then obtain i where i: "Suc i < length (a # b # cs)" "is_word ((a # b # cs) ! i)"
          "is_word ((a # b # cs) ! Suc i)" by blast
      with False obtain j where "i = Suc j" by (cases i) auto
      with i show ?R by auto
    next
      assume ?R
      then obtain i where "Suc i < length (b # cs)" "is_word ((b # cs) ! i)"
          "is_word ((b # cs) ! Suc i)" by blast
      then have "Suc (Suc i) < length (a # b # cs) \<and> is_word ((a # b # cs) ! Suc i)
          \<and> is_word ((a # b # cs) ! Suc (Suc i))" by simp
      then show ?L by blast
    qed
    from False have "match_pairs (a # b # cs) = [] \<longleftrightarrow> match_pairs (b # cs) = []"
      by auto
    also have "\<dots> \<longleftrightarrow> \<not> ?R" using False by (rule "1.IH"(2))
    also have "\<dots> \<longleftrightarrow> \<not> ?L" using shift by simp
    finally show ?thesis .
  qed
qed simp_all

section \<open>Properties of rounding\<close>

lemma pow2_powi: "pow2 e = 2 powi e"
  by (simp add: pow2_def power_int_def inverse_eq_divide power_one_over)

lemma pow2_pos [simp]: "0 < pow2 e"
  by (simp add: pow2_powi zero_less_power_int)

lemma pow2_nonzero [simp]: "pow2 e \<noteq> 0"
  using pow2_pos [of e] by linarith

lemma pow2_add: "pow2 (a + b) = pow2 a * pow2 b"
  by (simp add: pow2_powi power_int_add)

lemma pow2_minus: "pow2 (- e) = 1 / pow2 e"
  by (simp add: pow2_powi power_int_minus_divide)

lemma pow2_mono: "a \<le> b \<Longrightarrow> pow2 a \<le> pow2 b"
  by (simp add: pow2_powi power_int_increasing)

lemma pow2_strict_mono: "a < b \<Longrightarrow> pow2 a < pow2 b"
  by (simp add: pow2_powi power_int_strict_increasing)

lemma pow2_less_cancel: "pow2 a < pow2 b \<Longrightarrow> a < b"
  using pow2_mono [of b a] by (cases "a < b") simp_all

lemma pow2_nat: "0 \<le> e \<Longrightarrow> pow2 e = 2 ^ nat e"
  by (simp add: pow2_def)

lemma pow2_cancel [simp]: "pow2 e * pow2 (- e) = 1" "pow2 (- e) * pow2 e = 1"
  by (simp_all add: pow2_minus)

lemma real_pow_le_of_int: "2 ^ k \<le> (n::int) \<Longrightarrow> (2::real) ^ k \<le> of_int n"
  by (metis of_int_le_iff of_int_numeral of_int_power)

lemma of_int_less_real_pow: "(n::int) < 2 ^ k \<Longrightarrow> of_int n + 1 \<le> (2::real) ^ k"
proof -
  assume "n < 2 ^ k"
  then have "n + 1 \<le> 2 ^ k" by simp
  then have "(of_int (n + 1) :: real) \<le> of_int (2 ^ k)" by (simp only: of_int_le_iff)
  then show ?thesis by simp
qed

lemma ilog2_bounds:
  assumes "x \<noteq> 0"
  shows "pow2 (ilog2 x) \<le> \<bar>x\<bar>" and "\<bar>x\<bar> < pow2 (ilog2 x + 1)"
proof -
  have "pow2 (ilog2 x) \<le> \<bar>x\<bar> \<and> \<bar>x\<bar> < pow2 (ilog2 x + 1)"
  proof (cases "1 \<le> \<bar>x\<bar>")
    case True
    define n where "n = \<lfloor>\<bar>x\<bar>\<rfloor>"
    define b where "b = bitlen n"
    from True have n: "0 < n" by (simp add: n_def)
    then have "bitlen n \<noteq> 0" by (simp add: bitlen_eq_zero_iff)
    with bitlen_nonneg [of n] have b: "1 \<le> b" unfolding b_def by linarith
    from bitlen_bounds [OF n] have lo: "2 ^ nat (b - 1) \<le> n" and hi: "n < 2 ^ nat b"
      by (simp_all add: b_def)
    have il: "ilog2 x = b - 1" using True by (simp add: ilog2_def n_def b_def)
    have "pow2 (b - 1) = 2 ^ nat (b - 1)" using b by (simp add: pow2_nat)
    also have "\<dots> \<le> of_int n" using lo by (rule real_pow_le_of_int)
    also have "\<dots> \<le> \<bar>x\<bar>" by (simp add: n_def)
    finally have 1: "pow2 (b - 1) \<le> \<bar>x\<bar>" .
    have "\<bar>x\<bar> < of_int n + 1" by (simp add: n_def)
    with of_int_less_real_pow [OF hi] have "\<bar>x\<bar> < 2 ^ nat b" by linarith
    then have 2: "\<bar>x\<bar> < pow2 b" using b by (simp add: pow2_nat)
    from 1 2 il show ?thesis by simp
  next
    case False
    define z where "z = 1 / \<bar>x\<bar>"
    define m where "m = \<lceil>z\<rceil> - 1"
    define b where "b = bitlen m"
    from False assms have x: "0 < \<bar>x\<bar>" "\<bar>x\<bar> < 1" by simp_all
    then have z: "1 < z" by (simp add: z_def)
    then have "2 \<le> \<lceil>z\<rceil>" by (simp add: le_ceiling_iff)
    then have m: "0 < m" by (simp add: m_def)
    then have "bitlen m \<noteq> 0" by (simp add: bitlen_eq_zero_iff)
    with bitlen_nonneg [of m] have b: "1 \<le> b" unfolding b_def by linarith
    from bitlen_bounds [OF m] have lo: "2 ^ nat (b - 1) \<le> m" and hi: "m < 2 ^ nat b"
      by (simp_all add: b_def)
    have il: "ilog2 x = - b" using False by (simp add: ilog2_def z_def m_def b_def)
    have xz: "\<bar>x\<bar> = 1 / z" by (simp add: z_def)
    have "z \<le> of_int m + 1" by (simp add: m_def)
    with of_int_less_real_pow [OF hi] have "z \<le> 2 ^ nat b" by linarith
    with z have "1 / 2 ^ nat b \<le> 1 / z" by (simp add: frac_le)
    then have 1: "pow2 (- b) \<le> \<bar>x\<bar>" using b by (simp add: pow2_minus pow2_nat xz)
    have "of_int m < z" by (simp add: m_def) linarith
    with real_pow_le_of_int [OF lo] have "2 ^ nat (b - 1) < z" by linarith
    then have "1 / z < 1 / 2 ^ nat (b - 1)" using z by (simp add: frac_less2)
    moreover have "pow2 (- b + 1) = 1 / 2 ^ nat (b - 1)"
      using b pow2_minus [of "b - 1"] by (simp add: pow2_nat)
    ultimately have 2: "\<bar>x\<bar> < pow2 (- b + 1)" by (simp add: xz)
    from 1 2 il show ?thesis by simp
  qed
  then show "pow2 (ilog2 x) \<le> \<bar>x\<bar>" and "\<bar>x\<bar> < pow2 (ilog2 x + 1)" by simp_all
qed

lemma ilog2_unique:
  assumes "pow2 k \<le> \<bar>x\<bar>" and "\<bar>x\<bar> < pow2 (k + 1)"
  shows "ilog2 x = k"
proof -
  from assms(1) pow2_pos [of k] have "0 < \<bar>x\<bar>" by linarith
  then have x: "x \<noteq> 0" by simp
  from ilog2_bounds(1) [OF x] assms(2) have "pow2 (ilog2 x) < pow2 (k + 1)" by simp
  then have "ilog2 x < k + 1" by (rule pow2_less_cancel)
  moreover from ilog2_bounds(2) [OF x] assms(1) have "pow2 k < pow2 (ilog2 x + 1)" by simp
  then have "k < ilog2 x + 1" by (rule pow2_less_cancel)
  ultimately show ?thesis by simp
qed

lemma ilog2_mono:
  assumes "x \<noteq> 0" and "\<bar>x\<bar> \<le> \<bar>y\<bar>"
  shows "ilog2 x \<le> ilog2 y"
proof -
  from assms have y: "y \<noteq> 0" by auto
  from ilog2_bounds(1) [OF assms(1)] assms(2) ilog2_bounds(2) [OF y]
  have "pow2 (ilog2 x) < pow2 (ilog2 y + 1)" by simp
  then have "ilog2 x < ilog2 y + 1" by (rule pow2_less_cancel)
  then show ?thesis by simp
qed

lemma ilog2_uminus [simp]: "ilog2 (- x) = ilog2 x"
  by (simp add: ilog2_def)

lemma rne_cases:
  "rne y = \<lfloor>y\<rfloor> \<and> y - of_int \<lfloor>y\<rfloor> \<le> 1 / 2
     \<or> rne y = \<lfloor>y\<rfloor> + 1 \<and> 1 / 2 \<le> y - of_int \<lfloor>y\<rfloor>"
  by (auto simp: rne_def Let_def)

lemma rne_error: "\<bar>of_int (rne y) - y\<bar> \<le> 1 / 2"
  using rne_cases [of y] by (auto; linarith)

lemma rne_of_int [simp]: "rne (of_int n) = n"
  by (simp add: rne_def)

lemma rne_mono:
  assumes "x \<le> y"
  shows "rne x \<le> rne y"
proof (cases "\<lfloor>x\<rfloor> = \<lfloor>y\<rfloor>")
  case True
  with assms show ?thesis by (auto simp: rne_def Let_def)
next
  case False
  with assms have "\<lfloor>x\<rfloor> + 1 \<le> \<lfloor>y\<rfloor>" using floor_mono [OF assms] by linarith
  moreover have "rne x \<le> \<lfloor>x\<rfloor> + 1" using rne_cases [of x] by auto
  moreover have "\<lfloor>y\<rfloor> \<le> rne y" using rne_cases [of y] by auto
  ultimately show ?thesis by linarith
qed

lemma rne_uminus: "rne (- y) = - rne y"
proof (cases "y = of_int \<lfloor>y\<rfloor>")
  case True
  then obtain n where "y = of_int n" ..
  then show ?thesis by (simp flip: of_int_minus)
next
  case False
  then have f: "\<lfloor>- y\<rfloor> = - \<lfloor>y\<rfloor> - 1"
    by (simp add: floor_minus ceiling_altdef)
  show ?thesis
    using False by (auto simp: rne_def Let_def f)
qed

lemma pow2_nonneg [simp]: "0 \<le> pow2 e"
  using pow2_pos [of e] by linarith

lemma rne_numeral [simp]: "rne (numeral n) = numeral n"
  using rne_of_int [of "numeral n"] by simp

lemma fl_exp_uminus [simp]: "fl_exp (- x) = fl_exp x"
  by (simp add: fl_exp_def)

lemma fl_zero [simp]: "fl 0 = 0"
  by (simp add: fl_def)

lemma fl_uminus: "fl (- x) = - fl x"
  by (simp add: fl_def rne_uminus)

lemma fl_nonneg: "0 \<le> x \<Longrightarrow> 0 \<le> fl x"
proof -
  assume "0 \<le> x"
  then have "0 \<le> x * pow2 (- fl_exp x)" by simp
  then have "rne 0 \<le> rne (x * pow2 (- fl_exp x))" by (rule rne_mono)
  then have "0 \<le> rne (x * pow2 (- fl_exp x))" using rne_of_int [of 0] by simp
  then show ?thesis by (simp add: fl_def)
qed

lemma fl_nonpos: "x \<le> 0 \<Longrightarrow> fl x \<le> 0"
  using fl_nonneg [of "- x"] by (simp add: fl_uminus)

lemma fl_scaled: "x \<noteq> 0 \<Longrightarrow> fl x = of_int (rne (x / pow2 (fl_exp x))) * pow2 (fl_exp x)"
  by (simp add: fl_def pow2_minus)

lemma fl_error:
  "\<bar>fl x - x\<bar> \<le> pow2 (fl_exp x) / 2"
proof (cases "x = 0")
  case True
  then show ?thesis by simp
next
  case False
  let ?p = "pow2 (fl_exp x)"
  have "fl x - x = (of_int (rne (x / ?p)) - x / ?p) * ?p"
    using False by (simp add: fl_scaled left_diff_distrib)
  then have "\<bar>fl x - x\<bar> = \<bar>of_int (rne (x / ?p)) - x / ?p\<bar> * ?p"
    by (simp add: abs_mult)
  also have "\<dots> \<le> 1 / 2 * ?p"
    by (rule mult_right_mono [OF rne_error]) simp
  finally show ?thesis by simp
qed

lemma fl_exp_bound:
  assumes "x \<noteq> 0"
  shows "pow2 (fl_exp x) \<le> (\<bar>x\<bar> + pow2 (- 1022)) * pow2 (- 52)"
proof -
  note False = assms
  have "pow2 (max (ilog2 x) (- 1022)) \<le> \<bar>x\<bar> + pow2 (- 1022)"
  proof (cases "ilog2 x \<le> - 1022")
    case True
    then show ?thesis by (simp add: max_def)
  next
    case False
    then have "max (ilog2 x) (- 1022) = ilog2 x" by simp
    moreover have "pow2 (ilog2 x) \<le> \<bar>x\<bar> + pow2 (- 1022)"
      using ilog2_bounds(1) [OF assms] pow2_pos [of "- 1022"] by linarith
    ultimately show ?thesis by simp
  qed
  then have "pow2 (max (ilog2 x) (- 1022)) * pow2 (- 52) \<le> (\<bar>x\<bar> + pow2 (- 1022)) * pow2 (- 52)"
    by (rule mult_right_mono) simp
  then show ?thesis
    using pow2_add [of "max (ilog2 x) (- 1022)" "- 52"] by (simp add: fl_exp_def)
qed

text \<open>The relative error of rounding, with a margin that is ample for this file.\<close>

lemma fl_close: "\<bar>fl x - x\<bar> \<le> (\<bar>x\<bar> + 1) / 2 ^ 53"
proof (cases "x = 0")
  case True
  then show ?thesis by simp
next
  case False
  have "pow2 (- 1022) \<le> 1" using pow2_mono [of "- 1022" 0] by (simp add: pow2_def)
  with fl_exp_bound [OF False] have "pow2 (fl_exp x) \<le> (\<bar>x\<bar> + 1) * pow2 (- 52)"
    by (smt (verit) mult_right_mono pow2_pos)
  with fl_error [of x] have "\<bar>fl x - x\<bar> \<le> (\<bar>x\<bar> + 1) * pow2 (- 52) / 2" by linarith
  also have "\<dots> = (\<bar>x\<bar> + 1) / 2 ^ 53" by (simp add: pow2_def)
  finally show ?thesis .
qed

lemma fl_exp_mono:
  assumes "x \<noteq> 0" and "\<bar>x\<bar> \<le> \<bar>y\<bar>"
  shows "fl_exp x \<le> fl_exp y"
  using ilog2_mono [OF assms] by (simp add: fl_exp_def)

lemma fl_mono_pos:
  assumes "0 < x" and "x \<le> y"
  shows "fl x \<le> fl y"
proof -
  from assms have y: "0 < y" by simp
  have xn: "x \<noteq> 0" and yn: "y \<noteq> 0" using assms y by simp_all
  have le: "fl_exp x \<le> fl_exp y" using fl_exp_mono [of x y] assms by simp
  show ?thesis
  proof (cases "fl_exp x = fl_exp y")
    case True
    have "x / pow2 (fl_exp y) \<le> y / pow2 (fl_exp y)"
      using assms(2) by (simp add: divide_right_mono)
    then have "rne (x / pow2 (fl_exp y)) \<le> rne (y / pow2 (fl_exp y))" by (rule rne_mono)
    then have "of_int (rne (x / pow2 (fl_exp y))) * pow2 (fl_exp y)
                 \<le> of_int (rne (y / pow2 (fl_exp y))) * pow2 (fl_exp y)"
      by (simp add: mult_right_mono)
    then show ?thesis using True by (simp add: fl_scaled xn yn)
  next
    case False
    with le have lt: "fl_exp x + 1 \<le> fl_exp y" by simp
    then have "- 1074 < fl_exp y" by (simp add: fl_exp_def)
    then have ey: "fl_exp y = ilog2 y - 52" by (simp add: fl_exp_def max_def split: if_splits)
    have "ilog2 x \<le> fl_exp x + 52" by (simp add: fl_exp_def)
    then have "pow2 (ilog2 x + 1) \<le> pow2 (fl_exp x + 53)" by (intro pow2_mono) simp
    with ilog2_bounds(2) [OF xn] assms(1) have "x < pow2 (fl_exp x + 53)" by simp
    then have "x / pow2 (fl_exp x) \<le> pow2 53"
      using pow2_add [of "fl_exp x" 53] by (simp add: pos_divide_le_eq mult.commute)
    then have "rne (x / pow2 (fl_exp x)) \<le> rne (pow2 53)" by (rule rne_mono)
    moreover have "pow2 53 = of_int (2 ^ 53)" by (simp add: pow2_def)
    ultimately have "rne (x / pow2 (fl_exp x)) \<le> 2 ^ 53" by simp
    then have "(of_int (rne (x / pow2 (fl_exp x))) :: real) \<le> of_int (2 ^ 53)"
      by (simp only: of_int_le_iff)
    then have "fl x \<le> of_int (2 ^ 53) * pow2 (fl_exp x)"
      by (simp add: fl_scaled xn mult_right_mono)
    also have "\<dots> = pow2 (fl_exp x + 53)"
      using pow2_add [of "fl_exp x" 53] by (simp add: pow2_def)
    also have "\<dots> \<le> pow2 (fl_exp y + 52)" using lt by (intro pow2_mono) simp
    finally have upper: "fl x \<le> pow2 (fl_exp y + 52)" .
    have "pow2 (fl_exp y + 52) \<le> y" using ilog2_bounds(1) [OF yn] y by (simp add: ey)
    then have "pow2 52 \<le> y / pow2 (fl_exp y)"
      using pow2_add [of "fl_exp y" 52] by (simp add: pos_le_divide_eq mult.commute)
    then have "rne (pow2 52) \<le> rne (y / pow2 (fl_exp y))" by (rule rne_mono)
    moreover have "pow2 52 = of_int (2 ^ 52)" by (simp add: pow2_def)
    ultimately have "2 ^ 52 \<le> rne (y / pow2 (fl_exp y))" by simp
    then have "(of_int (2 ^ 52) :: real) \<le> of_int (rne (y / pow2 (fl_exp y)))"
      by (simp only: of_int_le_iff)
    then have "of_int (2 ^ 52) * pow2 (fl_exp y) \<le> fl y"
      by (simp add: fl_scaled yn mult_right_mono)
    moreover have "of_int (2 ^ 52) * pow2 (fl_exp y) = pow2 (fl_exp y + 52)"
      using pow2_add [of "fl_exp y" 52] by (simp add: pow2_def)
    ultimately show ?thesis using upper by linarith
  qed
qed

lemma fl_mono:
  assumes "x \<le> y"
  shows "fl x \<le> fl y"
proof -
  consider "0 < x" | "x \<le> 0" "0 \<le> y" | "y < 0" by linarith
  then show ?thesis
  proof cases
    case 1
    then show ?thesis using assms by (rule fl_mono_pos)
  next
    case 2
    with fl_nonpos [of x] fl_nonneg [of y] show ?thesis by linarith
  next
    case 3
    with assms have "0 < - y" "- y \<le> - x" by simp_all
    then have "fl (- y) \<le> fl (- x)" by (rule fl_mono_pos)
    then show ?thesis by (simp add: fl_uminus)
  qed
qed

lemma fl_consts [simp]:
  "fl 1 = 1" "fl 2 = 2" "fl 255 = 255" "fl (1 / 2) = 1 / 2" "fl 360 = 360"
  by (simp_all add: fl_eval)

section \<open>Grey pixels\<close>

lemma all_from_less: "all_from P lo n \<Longrightarrow> j < n \<Longrightarrow> P (lo + j)"
  by (induction n) (auto simp: less_Suc_eq)

lemma all_from_numeral:
  "all_from P lo (numeral k) = (P (lo + pred_numeral k) \<and> all_from P lo (pred_numeral k))"
  by (simp add: numeral_eq_Suc)

lemma grey_exact_0: "all_from grey_exact 0 32"
  by (simp add: all_from_numeral grey_exact_def grey_value_def toInt32_def op_eval fl_eval)

lemma grey_exact_1: "all_from grey_exact 32 32"
  by (simp add: all_from_numeral grey_exact_def grey_value_def toInt32_def op_eval fl_eval)

lemma grey_exact_2: "all_from grey_exact 64 32"
  by (simp add: all_from_numeral grey_exact_def grey_value_def toInt32_def op_eval fl_eval)

lemma grey_exact_3: "all_from grey_exact 96 32"
  by (simp add: all_from_numeral grey_exact_def grey_value_def toInt32_def op_eval fl_eval)

lemma grey_exact_4: "all_from grey_exact 128 32"
  by (simp add: all_from_numeral grey_exact_def grey_value_def toInt32_def op_eval fl_eval)

lemma grey_exact_5: "all_from grey_exact 160 32"
  by (simp add: all_from_numeral grey_exact_def grey_value_def toInt32_def op_eval fl_eval)

lemma grey_exact_6: "all_from grey_exact 192 32"
  by (simp add: all_from_numeral grey_exact_def grey_value_def toInt32_def op_eval fl_eval)

lemma grey_exact_7: "all_from grey_exact 224 32"
  by (simp add: all_from_numeral grey_exact_def grey_value_def toInt32_def op_eval fl_eval)

lemma grey_exact_all:
  assumes "v < 256"
  shows "grey_exact v"
proof -
  from assms consider "v < 32" | "32 \<le> v" "v < 64" | "64 \<le> v" "v < 96" | "96 \<le> v" "v < 128" | "128 \<le> v" "v < 160" | "160 \<le> v" "v < 192" | "192 \<le> v" "v < 224" | "224 \<le> v" "v < 256"
    by linarith
  then show ?thesis
  proof cases
  case 1
  with all_from_less [OF grey_exact_0, of "v - 0"] show ?thesis by simp
next
  case 2
  with all_from_less [OF grey_exact_1, of "v - 32"] show ?thesis by simp
next
  case 3
  with all_from_less [OF grey_exact_2, of "v - 64"] show ?thesis by simp
next
  case 4
  with all_from_less [OF grey_exact_3, of "v - 96"] show ?thesis by simp
next
  case 5
  with all_from_less [OF grey_exact_4, of "v - 128"] show ?thesis by simp
next
  case 6
  with all_from_less [OF grey_exact_5, of "v - 160"] show ?thesis by simp
next
  case 7
  with all_from_less [OF grey_exact_6, of "v - 192"] show ?thesis by simp
next
  case 8
  with all_from_less [OF grey_exact_7, of "v - 224"] show ?thesis by simp
  qed
qed

lemma applyHue_grey_packed:
  assumes "c \<le> 0xff"
  shows "applyHue (c, c, c) hue = push_bit 16 c OR push_bit 8 c OR c"
proof -
  from assms have "unat c < 256" by (simp add: word_le_nat_alt)
  then have "grey_exact (unat c)" by (rule grey_exact_all)
  then have "toInt32 (mul_d (lightness (div_d (num_of c) 255) (div_d (num_of c) 255)) 255) = c"
    by (simp add: grey_exact_def grey_value_def num_of_def)
  then show ?thesis
    by (simp add: applyHue_def saturation_def Let_def)
qed

lemma green_parts:
  "div_d 0 255 = 0" "div_d 255 255 = 1" "div_d 0 360 = 0"
  "lightness 0 1 = 1 / 2" "saturation 0 1 = 1" "chroma_t2 1 (1 / 2) = 1"
  "sub_d (mul_d 2 (1 / 2)) 1 = 0"
  by (simp_all add: op_eval fl_eval)

lemma red_channels:
  "hue_channel 0 0 1 (- 1) = 0" "hue_channel 0 0 1 0 = 0" "hue_channel 0 0 1 1 = 255"
  by (simp_all add: op_eval fl_eval)

lemma applyHue_green: "applyHue (0, 0xff, 0) 0 = 0xff"
  by (simp add: applyHue_def Let_def num_of_def green_parts red_channels toInt32_def)

lemma green_hsl: "rgbToHsl (0, 255, 0) = (120, 100, 50)"
proof -
  have parts: "sub_d 1 0 = 1" "add_d 2 (div_d (sub_d 0 0) 1) = 2" "mul_d 2 60 = 120"
    "mul_d 1 100 = 100" "mul_d (1 / 2) 100 = 50"
    by (simp_all add: op_eval fl_eval)
  show ?thesis
    by (simp add: rgbToHsl_def Let_def green_parts parts)
qed

lemma red_rgb: "hslToRgb (0, 100, 50) = (255, 0, 0)"
proof -
  have parts: "div_d 100 100 = 1" "div_d 50 100 = 1 / 2"
    by (simp_all add: op_eval fl_eval)
  show ?thesis
    by (simp add: hslToRgb_def Let_def parts green_parts red_channels)
qed

lemma applyHue_hex_green: "applyHue_hex 0 255 0 a 0 = ''#ff0000'' @ hex a"
proof -
  have parts: "hex 255 = ''ff''" "hex 0 = ''00''"
    by (simp_all add: hex_def math_round_def toString16_def padStart2_def hex_of_nat_numeral)
  show ?thesis
    by (simp add: applyHue_hex_def green_hsl hslToHex_def red_rgb rgbaToHex_def truthy_def parts)
qed

section \<open>Bytes of a pixel\<close>

lemma mask_numerals: "(0xff :: u32) = mask 8" "(0x00ffffff :: u32) = mask 24"
  by (simp_all add: mask_eq_exp_minus_1)

lemma alpha_of_drop_bit: "alpha_of p = drop_bit 24 p"
  unfolding alpha_of_def mask_numerals
  by (rule bit_word_eqI) (auto simp: bit_simps dest: bit_imp_le_length)

lemma int32ToRgb_bytes:
  "int32ToRgb c = (take_bit 8 (drop_bit 16 c), take_bit 8 (drop_bit 8 c), take_bit 8 c)"
  unfolding int32ToRgb_def prod.inject mask_numerals
  by (intro conjI; rule bit_word_eqI) (auto simp: bit_simps)

lemma pixel_decompose:
  "(case int32ToRgb (p AND 0x00ffffff) of (r, g, b) \<Rightarrow>
      push_bit 24 (alpha_of p) OR (push_bit 16 r OR push_bit 8 g OR b)) = p"
  unfolding int32ToRgb_bytes alpha_of_drop_bit prod.case mask_numerals
proof (rule bit_word_eqI)
  fix n
  assume "n < LENGTH(32)"
  then consider "n < 8" | "8 \<le> n" "n < 16" | "16 \<le> n" "n < 24" | "24 \<le> n" "n < 32"
    by fastforce
  then show "bit (push_bit 24 (drop_bit 24 p) OR
         (push_bit 16 (take_bit 8 (drop_bit 16 (p AND mask 24))) OR
          push_bit 8 (take_bit 8 (drop_bit 8 (p AND mask 24))) OR
          take_bit 8 (p AND mask 24))) n = bit p n"
    by cases (auto simp: bit_simps)
qed

lemma byte_le: "take_bit 8 (w :: u32) \<le> 0xff"
proof -
  have "unat (take_bit 8 w) < 2 ^ 8"
    unfolding unsigned_take_bit_eq by (rule take_bit_nat_less_exp)
  then show ?thesis by (simp add: word_le_nat_alt)
qed

lemma alpha_kept:
  assumes "x \<le> 0xffffff"
  shows "alpha_of (push_bit 24 (alpha_of p) OR x) = alpha_of p"
proof -
  from assms have "unat x < 2 ^ 24" by (simp add: word_le_nat_alt)
  then have "drop_bit 24 x = 0"
    by (simp add: drop_bit_eq_div unat_eq_zero [symmetric] unat_div del: unat_eq_zero)
  then show ?thesis
    unfolding alpha_of_drop_bit
    by (simp add: drop_bit_or) (rule bit_word_eqI, auto simp: bit_simps dest: bit_imp_le_length)
qed

section \<open>Error bounds\<close>

lemma fl_near:
  assumes "\<bar>x\<bar> \<le> 1023"
  shows "\<bar>fl x - x\<bar> \<le> eps"
proof -
  have "(\<bar>x\<bar> + 1) / 2 ^ 53 \<le> 1024 / 2 ^ 53"
    using assms by (intro divide_right_mono) simp_all
  with fl_close [of x] show ?thesis by (simp add: eps_def)
qed

lemma eps_bounds: "0 < eps" "eps \<le> 1 / 1000000000000"
  by (simp_all add: eps_def)

lemma add_d_near: "\<bar>x + y\<bar> \<le> 1023 \<Longrightarrow> \<bar>add_d x y - (x + y)\<bar> \<le> eps"
  unfolding add_d_def by (rule fl_near)

lemma sub_d_near: "\<bar>x - y\<bar> \<le> 1023 \<Longrightarrow> \<bar>sub_d x y - (x - y)\<bar> \<le> eps"
  unfolding sub_d_def by (rule fl_near)

lemma mul_d_near: "\<bar>x * y\<bar> \<le> 1023 \<Longrightarrow> \<bar>mul_d x y - x * y\<bar> \<le> eps"
  unfolding mul_d_def by (rule fl_near)

lemma div_d_near: "\<bar>x / y\<bar> \<le> 1023 \<Longrightarrow> \<bar>div_d x y - x / y\<bar> \<le> eps"
  unfolding div_d_def by (rule fl_near)

lemma grey_round_trip:
  assumes "v \<le> 255"
  shows "\<bar>mul_d (div_d (mul_d (lightness (div_d (real v) 255) (div_d (real v) 255)) 100) 100) 255
           - real v\<bar> \<le> 1000 * eps"
proof -
  define r where "r = div_d (real v) 255"
  define a where "a = add_d r r"
  define l where "l = div_d a 2"
  define L where "L = mul_d l 100"
  define l' where "l' = div_d L 100"
  define val where "val = mul_d l' 255"
  from assms have v: "0 \<le> real v" "real v \<le> 255" by simp_all
  have 1: "\<bar>r - real v / 255\<bar> \<le> eps"
    unfolding r_def using v eps_bounds by (intro div_d_near) linarith
  have 2: "\<bar>a - (r + r)\<bar> \<le> eps"
    unfolding a_def using 1 v eps_bounds by (intro add_d_near) linarith
  have 3: "\<bar>l - a / 2\<bar> \<le> eps"
    unfolding l_def using 1 2 v eps_bounds by (intro div_d_near) linarith
  have 4: "\<bar>L - l * 100\<bar> \<le> eps"
    unfolding L_def using 1 2 3 v eps_bounds by (intro mul_d_near) linarith
  have 5: "\<bar>l' - L / 100\<bar> \<le> eps"
    unfolding l'_def using 1 2 3 4 v eps_bounds by (intro div_d_near) linarith
  have 6: "\<bar>val - l' * 255\<bar> \<le> eps"
    unfolding val_def using 1 2 3 4 5 v eps_bounds by (intro mul_d_near) linarith
  have "\<bar>val - real v\<bar> \<le> 1000 * eps"
    using 1 2 3 4 5 6 eps_bounds by linarith
  then show ?thesis
    by (simp add: val_def l'_def L_def l_def a_def r_def lightness_def)
qed

lemma math_round_near:
  assumes "\<bar>x - real v\<bar> \<le> 1 / 4"
  shows "math_round x = int v"
proof -
  from assms have "real v \<le> x + 1 / 2" "x + 1 / 2 < real v + 1"
    by linarith+
  then show ?thesis
    unfolding math_round_def by (simp add: floor_eq_iff)
qed

lemma applyHue_hex_grey:
  assumes "v \<le> 255"
  shows "applyHue_hex (real v) (real v) (real v) a hue
           = rgbaToHex (real v) (real v) (real v) None @ hex a"
proof -
  define r where "r = div_d (real v) 255"
  define val where "val = mul_d (div_d (mul_d (lightness r r) 100) 100) 255"
  have zero: "mul_d 0 60 = 0" "mul_d 0 100 = 0" "div_d 0 100 = 0"
    by (simp_all add: mul_d_def div_d_def)
  have hsl: "rgbToHsl (real v, real v, real v) = (0, 0, mul_d (lightness r r) 100)"
    by (simp add: rgbToHsl_def Let_def saturation_def zero r_def)
  have rgb: "hslToRgb (hue, 0, mul_d (lightness r r) 100) = (val, val, val)"
    by (simp add: hslToRgb_def Let_def zero val_def)
  have "\<bar>val - real v\<bar> \<le> 1 / 4"
    using grey_round_trip [OF assms] eps_bounds unfolding val_def r_def by linarith
  then have "math_round val = int v" by (rule math_round_near)
  moreover have "math_round (real v) = int v"
    by (simp add: math_round_def)
  ultimately have "hex val = hex (real v)" by (simp add: hex_def)
  then show ?thesis
    by (simp add: applyHue_hex_def hsl hslToHex_def rgb rgbaToHex_def truthy_def)
qed

text \<open>
  Claim C10. Hue rotation leaves a grey pixel as it is, whatever the hue: for channels
  \<open>r = g = b = c\<close> the saturation is 0, \<^verbatim>\<open>applyHue\<close> returns \<open>l * 255\<close> for each channel, and
  that number converts to \<open>c\<close> again, for each of the 256 bytes. So the pixel the engine
  writes for a grey source pixel, \<^verbatim>\<open>(a << 24) | applyHue(int32ToRgb(color), hue)\<close>, is the
  source pixel. In the second source file the same holds of \<^verbatim>\<open>applyHue\<close> on hex strings:
  for channels \<open>v\<close> it returns the hex string of \<open>(v, v, v)\<close>, followed by the alpha.
\<close>

theorem hue_rotation_keeps_grey:
  assumes "c \<le> 0xff"
    and "int32ToRgb (p AND 0x00ffffff) = (c, c, c)"
    and "v \<le> 255"
  shows "applyHue (c, c, c) hue = push_bit 16 c OR push_bit 8 c OR c
    \<and> push_bit 24 (alpha_of p) OR applyHue (int32ToRgb (p AND 0x00ffffff)) hue = p
    \<and> applyHue_hex (real v) (real v) (real v) a hue
          = rgbaToHex (real v) (real v) (real v) None @ hex a"
proof -
  have 1: "applyHue (c, c, c) hue = push_bit 16 c OR push_bit 8 c OR c"
    using assms(1) by (rule applyHue_grey_packed)
  from pixel_decompose [of p] assms(2)
  have "push_bit 24 (alpha_of p) OR (push_bit 16 c OR push_bit 8 c OR c) = p" by simp
  with 1 assms(2)
  have 2: "push_bit 24 (alpha_of p) OR applyHue (int32ToRgb (p AND 0x00ffffff)) hue = p"
    by simp
  have 3: "applyHue_hex (real v) (real v) (real v) a hue
           = rgbaToHex (real v) (real v) (real v) None @ hex a"
    using assms(3) by (rule applyHue_hex_grey)
  from 1 2 3 show ?thesis by simp
qed

theorem hue_rotation_keeps_grey_witness:
  "(0x11 :: u32) \<le> 0xff \<and> int32ToRgb (0xff111111 AND 0x00ffffff) = (0x11, 0x11, 0x11)
   \<and> (17 :: nat) \<le> 255
   \<and> applyHue (0x11, 0x11, 0x11) 220 = 0x111111
   \<and> push_bit 24 (alpha_of 0xff111111) OR applyHue (int32ToRgb (0xff111111 AND 0x00ffffff)) 220
       = 0xff111111
   \<and> applyHue_hex 17 17 17 255 220 = ''#111111ff''"
proof -
  have c: "(0x11 :: u32) \<le> 0xff" by simp
  have p: "int32ToRgb (0xff111111 AND 0x00ffffff) = (0x11, 0x11, 0x11)"
    by (simp add: int32ToRgb_def)
  have v: "(17 :: nat) \<le> 255" by simp
  have h: "hex 17 = ''11''" "hex 255 = ''ff''"
    by (simp_all add: hex_def math_round_def toString16_def padStart2_def hex_of_nat_numeral)
  from hue_rotation_keeps_grey [OF c p v, of 220 255] c p v h
  show ?thesis by (simp add: rgbaToHex_def truthy_def alpha_of_def)
qed

section \<open>The channels of a rotated colour\<close>

lemma abs_mult_le:
  fixes x y :: real
  assumes "\<bar>x\<bar> \<le> e" and "\<bar>y\<bar> \<le> c"
  shows "\<bar>x * y\<bar> \<le> e * c"
proof -
  have "\<bar>x * y\<bar> = \<bar>x\<bar> * \<bar>y\<bar>" by (rule abs_mult)
  also have "\<dots> \<le> e * c" using assms by (intro mult_mono) simp_all
  finally show ?thesis .
qed

lemma ramp_range: "0 \<le> ramp t" "ramp t \<le> 1"
  by (simp_all add: ramp_def)

lemma hue_value_near:
  assumes "0 \<le> t3" and "t3 \<le> 1" and "\<bar>t1\<bar> \<le> 2" and "\<bar>t2\<bar> \<le> 2"
  shows "\<bar>hue_value t1 t2 t3 - (t1 + (t2 - t1) * ramp t3)\<bar> \<le> 80 * eps"
proof -
  define D where "D = t2 - t1"
  define d where "d = sub_d t2 t1"
  define m6 where "m6 = mul_d 6 t3"
  define m2 where "m2 = mul_d 2 t3"
  define m3 where "m3 = mul_d 3 t3"
  note e = eps_bounds
  have Db: "\<bar>D\<bar> \<le> 4" using assms(3,4) unfolding D_def by linarith
  have d: "\<bar>d - D\<bar> \<le> eps"
    unfolding d_def D_def using assms(3,4) by (intro sub_d_near) linarith
  have d5: "\<bar>d\<bar> \<le> 5" using d Db e by linarith
  have m6: "\<bar>m6 - 6 * t3\<bar> \<le> eps"
    unfolding m6_def using assms(1,2) by (intro mul_d_near) linarith
  have m2: "\<bar>m2 - 2 * t3\<bar> \<le> eps"
    unfolding m2_def using assms(1,2) by (intro mul_d_near) linarith
  have m3: "\<bar>m3 - 3 * t3\<bar> \<le> eps"
    unfolding m3_def using assms(1,2) by (intro mul_d_near) linarith
  have t3: "\<bar>t3\<bar> \<le> 1" using assms(1,2) by linarith
  consider (A) "m6 < 1" | (B) "\<not> m6 < 1" "m2 < 1" | (C) "\<not> m6 < 1" "\<not> m2 < 1" "m3 < 2"
    | (D) "\<not> m6 < 1" "\<not> m2 < 1" "\<not> m3 < 2" by blast
  then show ?thesis
  proof cases
    case A
    define D6 where "D6 = mul_d d 6"
    define p where "p = mul_d D6 t3"
    define val where "val = add_d t1 p"
    have val: "hue_value t1 t2 t3 = val"
      using A by (simp add: hue_value_def val_def p_def D6_def d_def m6_def)
    have r: "\<bar>6 * t3 - ramp t3\<bar> \<le> eps"
      using A m6 assms(1,2) e unfolding ramp_def by linarith
    have D6: "\<bar>D6 - d * 6\<bar> \<le> eps"
      unfolding D6_def using d5 by (intro mul_d_near) linarith
    have D6b: "\<bar>D6\<bar> \<le> 31" using D6 d5 e by linarith
    have "\<bar>D6 * t3\<bar> \<le> 31 * 1" using D6b t3 by (rule abs_mult_le)
    then have p: "\<bar>p - D6 * t3\<bar> \<le> eps"
      unfolding p_def by (intro mul_d_near) linarith
    have pb: "\<bar>p\<bar> \<le> 32" using p \<open>\<bar>D6 * t3\<bar> \<le> 31 * 1\<close> e by linarith
    have v: "\<bar>val - (t1 + p)\<bar> \<le> eps"
      unfolding val_def using pb assms(3) by (intro add_d_near) linarith
    define X1 where "X1 = (D6 - d * 6) * t3"
    define X2 where "X2 = (d - D) * t3"
    define X3 where "X3 = D * (6 * t3 - ramp t3)"
    have X1: "\<bar>X1\<bar> \<le> eps" unfolding X1_def using abs_mult_le [OF D6 t3] by simp
    have X2: "\<bar>X2\<bar> \<le> eps" unfolding X2_def using abs_mult_le [OF d t3] by simp
    have X3: "\<bar>X3\<bar> \<le> 4 * eps" unfolding X3_def using abs_mult_le [OF Db r] by simp
    have "val - (t1 + D * ramp t3) = (val - (t1 + p)) + (p - D6 * t3) + X1 + 6 * X2 + X3"
      unfolding X1_def X2_def X3_def by (simp add: algebra_simps)
    with v p X1 X2 X3 e have "\<bar>val - (t1 + D * ramp t3)\<bar> \<le> 80 * eps" by linarith
    then show ?thesis by (simp add: val D_def)
  next
    case B
    have val: "hue_value t1 t2 t3 = t2"
      using B by (simp add: hue_value_def m6_def m2_def)
    have r: "\<bar>1 - ramp t3\<bar> \<le> 3 * eps"
      using B m6 m2 assms(1,2) e unfolding ramp_def by linarith
    define X where "X = D * (1 - ramp t3)"
    have X: "\<bar>X\<bar> \<le> 12 * eps" unfolding X_def using abs_mult_le [OF Db r] by simp
    have "t2 - (t1 + D * ramp t3) = X"
      unfolding X_def D_def by (simp add: algebra_simps)
    with X e have "\<bar>t2 - (t1 + D * ramp t3)\<bar> \<le> 80 * eps" by linarith
    then show ?thesis by (simp add: val D_def)
  next
    case C
    define c where "c = div_d 2 3"
    define w where "w = sub_d c t3"
    define q1 where "q1 = mul_d d w"
    define q where "q = mul_d q1 6"
    define val where "val = add_d t1 q"
    have val: "hue_value t1 t2 t3 = val"
      using C by (simp add: hue_value_def val_def q_def q1_def w_def c_def d_def m6_def m2_def m3_def)
    have c: "\<bar>c - 2 / 3\<bar> \<le> eps"
      unfolding c_def by (intro div_d_near) simp
    have w: "\<bar>w - (c - t3)\<bar> \<le> eps"
      unfolding w_def using c assms(1,2) e by (intro sub_d_near) linarith
    have w1: "\<bar>w\<bar> \<le> 1" using w c C m2 m3 assms(1,2) e by linarith
    have r: "\<bar>6 * w - ramp t3\<bar> \<le> 15 * eps"
      using C m6 m2 m3 w c assms(1,2) e unfolding ramp_def by linarith
    have "\<bar>d * w\<bar> \<le> 5 * 1" using d5 w1 by (rule abs_mult_le)
    then have q1: "\<bar>q1 - d * w\<bar> \<le> eps"
      unfolding q1_def by (intro mul_d_near) linarith
    have q1b: "\<bar>q1\<bar> \<le> 6" using q1 \<open>\<bar>d * w\<bar> \<le> 5 * 1\<close> e by linarith
    have q: "\<bar>q - q1 * 6\<bar> \<le> eps"
      unfolding q_def using q1b by (intro mul_d_near) linarith
    have qb: "\<bar>q\<bar> \<le> 37" using q q1b e by linarith
    have v: "\<bar>val - (t1 + q)\<bar> \<le> eps"
      unfolding val_def using qb assms(3) by (intro add_d_near) linarith
    define X2 where "X2 = (d - D) * w"
    define X3 where "X3 = D * (6 * w - ramp t3)"
    have X2: "\<bar>X2\<bar> \<le> eps" unfolding X2_def using abs_mult_le [OF d w1] by simp
    have X3: "\<bar>X3\<bar> \<le> 60 * eps" unfolding X3_def using abs_mult_le [OF Db r] by simp
    have "val - (t1 + D * ramp t3)
            = (val - (t1 + q)) + (q - q1 * 6) + 6 * (q1 - d * w) + 6 * X2 + X3"
      unfolding X2_def X3_def by (simp add: algebra_simps)
    with v q q1 X2 X3 e have "\<bar>val - (t1 + D * ramp t3)\<bar> \<le> 80 * eps" by argo
    then show ?thesis by (simp add: val D_def)
  next
    case D
    have val: "hue_value t1 t2 t3 = t1"
      using D by (simp add: hue_value_def m6_def m2_def m3_def)
    have r: "\<bar>ramp t3\<bar> \<le> 3 * eps"
      using D m6 m2 m3 assms(1,2) e unfolding ramp_def by linarith
    define X where "X = D * ramp t3"
    have X: "\<bar>X\<bar> \<le> 12 * eps" unfolding X_def using abs_mult_le [OF Db r] by simp
    with e have "\<bar>t1 - (t1 + D * ramp t3)\<bar> \<le> 80 * eps" unfolding X_def by linarith
    then show ?thesis by (simp add: val D_def)
  qed
qed

lemma fl_between:
  assumes "a \<le> x" and "x \<le> b" and "fl a = a" and "fl b = b"
  shows "a \<le> fl x" and "fl x \<le> b"
  using fl_mono [OF assms(1)] fl_mono [OF assms(2)] assms(3,4) by simp_all

lemma fl_more_consts [simp]: "fl (3 / 2) = 3 / 2" "fl (- (1 / 2)) = - (1 / 2)"
  by (simp_all add: fl_eval)

lemma wrap_t3_range:
  assumes "- (1 / 2) \<le> x" and "x \<le> 3 / 2"
  shows "0 \<le> wrap_t3 x" and "wrap_t3 x \<le> 1"
proof -
  have "0 \<le> wrap_t3 x \<and> wrap_t3 x \<le> 1"
  proof (cases "x < 0")
    case True
    with assms have "1 / 2 \<le> x + 1" "x + 1 \<le> 1" by linarith+
    then have "1 / 2 \<le> fl (x + 1)" "fl (x + 1) \<le> 1"
      by (rule fl_between; simp)+
    with True show ?thesis by (simp add: wrap_t3_def add_d_def)
  next
    case False
    show ?thesis
    proof (cases "1 < x")
      case True
      with assms have "0 \<le> x - 1" "x - 1 \<le> 1" by linarith+
      then have "0 \<le> fl (x - 1)" "fl (x - 1) \<le> 1"
        by (rule fl_between; simp)+
      with True False show ?thesis by (simp add: wrap_t3_def sub_d_def)
    next
      case False
      with \<open>\<not> x < 0\<close> show ?thesis by (simp add: wrap_t3_def)
    qed
  qed
  then show "0 \<le> wrap_t3 x" and "wrap_t3 x \<le> 1" by simp_all
qed

lemma hue_offset_range:
  assumes "0 \<le> h" and "h \<le> 1" and "k = - 1 \<or> k = 0 \<or> k = 1"
  shows "- (1 / 2) \<le> add_d h (mul_d (div_d 1 3) k)"
    and "add_d h (mul_d (div_d 1 3) k) \<le> 3 / 2"
proof -
  define c where "c = div_d 1 3"
  define m where "m = mul_d c k"
  have c: "0 \<le> c" "c \<le> 1 / 2"
    unfolding c_def div_d_def by (rule fl_between [where a = 0 and b = "1 / 2"]; simp)+
  have "- (1 / 2) \<le> c * k" "c * k \<le> 1 / 2"
    using c assms(3) by auto
  then have m: "- (1 / 2) \<le> m" "m \<le> 1 / 2"
    unfolding m_def mul_d_def by (rule fl_between; simp)+
  with assms(1,2) have "- (1 / 2) \<le> h + m" "h + m \<le> 3 / 2" by linarith+
  then have "- (1 / 2) \<le> fl (h + m)" "fl (h + m) \<le> 3 / 2"
    by (rule fl_between; simp)+
  then show "- (1 / 2) \<le> add_d h (mul_d (div_d 1 3) k)"
    and "add_d h (mul_d (div_d 1 3) k) \<le> 3 / 2"
    by (simp_all add: add_d_def m_def c_def)
qed

lemma convex_range:
  fixes a b t1 t2 r :: real
  assumes "a \<le> t1" and "t1 \<le> b" and "a \<le> t2" and "t2 \<le> b" and "0 \<le> r" and "r \<le> 1"
  shows "a \<le> t1 + (t2 - t1) * r" and "t1 + (t2 - t1) * r \<le> b"
proof -
  have eq: "t1 + (t2 - t1) * r = (1 - r) * t1 + r * t2" by (simp add: algebra_simps)
  have "(1 - r) * a \<le> (1 - r) * t1" "r * a \<le> r * t2"
    using assms by (simp_all add: mult_left_mono)
  then have "(1 - r) * a + r * a \<le> (1 - r) * t1 + r * t2" by linarith
  then show "a \<le> t1 + (t2 - t1) * r" by (simp add: eq algebra_simps)
  have "(1 - r) * t1 \<le> (1 - r) * b" "r * t2 \<le> r * b"
    using assms by (simp_all add: mult_left_mono)
  then have "(1 - r) * t1 + r * t2 \<le> (1 - r) * b + r * b" by linarith
  then show "t1 + (t2 - t1) * r \<le> b" by (simp add: eq algebra_simps)
qed

lemma hue_channel_range:
  assumes "0 \<le> h" and "h \<le> 1" and "k = - 1 \<or> k = 0 \<or> k = 1"
    and "- (1 / 1000) \<le> t1" and "t1 \<le> 1 + 1 / 1000"
    and "- (1 / 1000) \<le> t2" and "t2 \<le> 1 + 1 / 1000"
  shows "- 1 < hue_channel h t1 t2 k" and "hue_channel h t1 t2 k < 256"
proof -
  define t3 where "t3 = wrap_t3 (add_d h (mul_d (div_d 1 3) k))"
  define val where "val = hue_value t1 t2 t3"
  note e = eps_bounds
  have t3: "0 \<le> t3" "t3 \<le> 1"
    unfolding t3_def using hue_offset_range [OF assms(1-3)] by (rule wrap_t3_range)+
  have "\<bar>t1\<bar> \<le> 2" "\<bar>t2\<bar> \<le> 2" using assms(4-7) by linarith+
  from hue_value_near [OF t3 this]
  have near: "\<bar>val - (t1 + (t2 - t1) * ramp t3)\<bar> \<le> 80 * eps" by (simp add: val_def)
  from convex_range [OF assms(4-7) ramp_range]
  have "- (1 / 1000) \<le> t1 + (t2 - t1) * ramp t3" "t1 + (t2 - t1) * ramp t3 \<le> 1 + 1 / 1000" .
  with near e have v: "- (2 / 1000) \<le> val" "val \<le> 1 + 2 / 1000" by linarith+
  then have "\<bar>mul_d val 255 - val * 255\<bar> \<le> eps"
    by (intro mul_d_near) linarith
  with v e have "- 1 < mul_d val 255" "mul_d val 255 < 256" by linarith+
  then show "- 1 < hue_channel h t1 t2 k" and "hue_channel h t1 t2 k < 256"
    by (simp_all add: hue_channel_def val_def t3_def)
qed

section \<open>The range of a rotated colour\<close>

lemma channel_unit:
  assumes "c \<le> 0xff"
  shows "0 \<le> div_d (num_of c) 255" and "div_d (num_of c) 255 \<le> 1"
proof -
  from assms have "unat c \<le> 255" by (simp add: word_le_nat_alt)
  then have "real (unat c) \<le> real 255" by (rule of_nat_mono)
  then have b: "real (unat c) \<le> 255" by (simp del: of_nat_unat)
  have a: "0 \<le> real (unat c)" by (rule of_nat_0_le_iff)
  from a b have "0 \<le> num_of c / 255" "num_of c / 255 \<le> 1"
    unfolding num_of_def by (simp_all del: of_nat_unat)
  then show "0 \<le> div_d (num_of c) 255" and "div_d (num_of c) 255 \<le> 1"
    unfolding div_d_def by (rule fl_between; simp)+
qed

lemma lightness_range:
  assumes "0 \<le> mn" and "mn \<le> 1" and "0 \<le> mx" and "mx \<le> 1"
  shows "0 \<le> lightness mn mx" and "lightness mn mx \<le> 1"
proof -
  from assms have "0 \<le> mn + mx" "mn + mx \<le> 2" by linarith+
  then have "0 \<le> fl (mn + mx)" "fl (mn + mx) \<le> 2" by (rule fl_between; simp)+
  then have "0 \<le> fl (mn + mx) / 2" "fl (mn + mx) / 2 \<le> 1" by linarith+
  then show "0 \<le> lightness mn mx" and "lightness mn mx \<le> 1"
    unfolding lightness_def add_d_def div_d_def by (rule fl_between; simp)+
qed

lemma ratio_unit:
  fixes a b :: real
  assumes "0 \<le> a" and "a \<le> b"
  shows "0 \<le> a / b" and "a / b \<le> 1"
  using assms by (cases "b = 0"; simp add: divide_le_eq_1)+

lemma saturation_range:
  assumes "0 \<le> mn" and "mn \<le> mx" and "mx \<le> 1"
  shows "0 \<le> saturation mn mx" and "saturation mn mx \<le> 1"
proof -
  define delta where "delta = sub_d mx mn"
  have delta: "0 \<le> delta" unfolding delta_def sub_d_def using assms(2) by (intro fl_nonneg) simp
  have 1: "delta \<le> add_d mx mn"
    unfolding delta_def sub_d_def add_d_def using assms(1) by (intro fl_mono) simp
  have "1 \<le> fl (2 - mx)" using assms(3) fl_mono [of 1 "2 - mx"] by simp
  then have 2: "delta \<le> sub_d (sub_d 2 mx) mn"
    unfolding delta_def sub_d_def using assms(3) by (intro fl_mono) linarith
  have a: "0 \<le> fl (delta / add_d mx mn)" "fl (delta / add_d mx mn) \<le> 1"
    using ratio_unit [OF delta 1] by (rule fl_between; simp)+
  have b: "0 \<le> fl (delta / sub_d (sub_d 2 mx) mn)" "fl (delta / sub_d (sub_d 2 mx) mn) \<le> 1"
    using ratio_unit [OF delta 2] by (rule fl_between; simp)+
  from a b show "0 \<le> saturation mn mx" and "saturation mn mx \<le> 1"
    by (simp_all add: saturation_def Let_def div_d_def delta_def)
qed

lemma chroma_range:
  assumes "0 \<le> s" and "s \<le> 1" and "0 \<le> l" and "l \<le> 1"
  defines "t2 \<equiv> chroma_t2 s l"
  defines "t1 \<equiv> sub_d (mul_d 2 l) t2"
  shows "- (1 / 1000) \<le> t1 \<and> t1 \<le> 1 + 1 / 1000 \<and> - (1 / 1000) \<le> t2 \<and> t2 \<le> 1 + 1 / 1000"
proof -
  note e = eps_bounds
  define F where "F = mul_d 2 l"
  have F: "\<bar>F - 2 * l\<bar> \<le> eps"
    unfolding F_def using assms(3,4) by (intro mul_d_near) linarith
  have ls: "0 \<le> l * s" "l * s \<le> l" "l * s \<le> s"
    using assms(1-4) by (simp_all add: mult_left_le mult_left_le_one_le)
  have "0 \<le> (1 - l) * (1 - s)" using assms(1-4) by simp
  then have ls1: "l + s - l * s \<le> 1" by (simp add: algebra_simps)
  show ?thesis
  proof (cases "l < 1 / 2")
    case True
    define u where "u = add_d 1 s"
    have u: "\<bar>u - (1 + s)\<bar> \<le> eps"
      unfolding u_def using assms(1,2) by (intro add_d_near) linarith
    have t2: "t2 = mul_d l u" using True by (simp add: t2_def chroma_t2_def u_def)
    define X where "X = l * (u - (1 + s))"
    have "\<bar>X\<bar> \<le> 1 * eps"
      unfolding X_def using abs_mult_le [of l 1 "u - (1 + s)" eps] assms(3,4) u by simp
    then have X: "\<bar>X\<bar> \<le> eps" by simp
    have lu: "l * u = l + l * s + X" unfolding X_def by (simp add: algebra_simps)
    have "\<bar>mul_d l u - l * u\<bar> \<le> eps"
      using lu X ls assms(3,4) e by (intro mul_d_near) linarith
    with lu X t2 have t2n: "\<bar>t2 - (l + l * s)\<bar> \<le> 2 * eps" by linarith
    have "\<bar>sub_d F t2 - (F - t2)\<bar> \<le> eps"
      using F t2n ls assms(3,4) e by (intro sub_d_near) linarith
    then have "\<bar>t1 - (F - t2)\<bar> \<le> eps" by (simp add: t1_def F_def)
    with F t2n ls True assms(3) e show ?thesis by (intro conjI) linarith+
  next
    case False
    define A where "A = add_d l s"
    define B where "B = mul_d l s"
    have A: "\<bar>A - (l + s)\<bar> \<le> eps"
      unfolding A_def using assms(1-4) by (intro add_d_near) linarith
    have B: "\<bar>B - l * s\<bar> \<le> eps"
      unfolding B_def using ls assms(3,4) by (intro mul_d_near) linarith
    have t2: "t2 = sub_d A B" using False by (simp add: t2_def chroma_t2_def A_def B_def)
    have "\<bar>sub_d A B - (A - B)\<bar> \<le> eps"
      using A B ls assms(1-4) e by (intro sub_d_near) linarith
    with t2 A B have t2n: "\<bar>t2 - (l + s - l * s)\<bar> \<le> 3 * eps" by linarith
    have "\<bar>sub_d F t2 - (F - t2)\<bar> \<le> eps"
      using F t2n ls assms(1-4) e by (intro sub_d_near) linarith
    then have "\<bar>t1 - (F - t2)\<bar> \<le> eps" by (simp add: t1_def F_def)
    with F t2n ls ls1 False assms(1-4) e show ?thesis by (intro conjI) linarith+
  qed
qed

lemma toInt32_byte:
  assumes "- 1 < x" and "x < 256"
  shows "toInt32 x \<le> 0xff"
proof -
  define n where "n = (if 0 \<le> x then \<lfloor>x\<rfloor> else \<lceil>x\<rceil>)"
  have n: "0 \<le> n" "n \<le> 255"
    using assms unfolding n_def by (auto simp: le_floor_iff floor_le_iff ceiling_le_iff le_ceiling_iff; linarith)+
  then have "unat (word_of_int n :: u32) = nat n"
    by (simp add: unat_eq_nat_uint uint_word_of_int take_bit_int_eq_self)
  with n have "unat (word_of_int n :: u32) \<le> 255" by simp
  then show ?thesis by (simp add: toInt32_def n_def word_le_nat_alt)
qed

lemma byte_bits:
  assumes "(c :: u32) \<le> 0xff" and "bit c n"
  shows "n < 8"
proof (rule ccontr)
  assume "\<not> n < 8"
  then have n: "n = 8 + (n - 8)" by simp
  from assms(1) have "unat c < 2 ^ 8" by (simp add: word_le_nat_alt)
  then have "drop_bit 8 c = 0"
    by (simp add: drop_bit_eq_div unat_eq_zero [symmetric] unat_div del: unat_eq_zero)
  then have "\<not> bit (drop_bit 8 c) (n - 8)" by simp
  then have "\<not> bit c (8 + (n - 8))" unfolding bit_drop_bit_eq by (simp add: add.commute)
  with n assms(2) show False by simp
qed

lemma take_bit_24_le: "take_bit 24 (w :: u32) \<le> 0xffffff"
proof -
  have "unat (take_bit 24 w) < 2 ^ 24"
    unfolding unsigned_take_bit_eq by (rule take_bit_nat_less_exp)
  then show ?thesis by (simp add: word_le_nat_alt)
qed

lemma pack_le:
  assumes "c0 \<le> 0xff" and "c1 \<le> 0xff" and "c2 \<le> (0xff :: u32)"
  shows "push_bit 16 c0 OR push_bit 8 c1 OR c2 \<le> 0xffffff"
proof -
  have "take_bit 24 (push_bit 16 c0 OR push_bit 8 c1 OR c2) = push_bit 16 c0 OR push_bit 8 c1 OR c2"
    by (rule bit_word_eqI)
      (auto simp: bit_simps dest: byte_bits [OF assms(1)] byte_bits [OF assms(2)] byte_bits [OF assms(3)])
  then show ?thesis using take_bit_24_le [of "push_bit 16 c0 OR push_bit 8 c1 OR c2"] by simp
qed


lemma applyHue_le:
  assumes "r0 \<le> 0xff" and "g0 \<le> 0xff" and "b0 \<le> 0xff" and "0 \<le> hue" and "hue \<le> 360"
  shows "applyHue (r0, g0, b0) hue \<le> 0xffffff"
proof -
  define h where "h = div_d hue 360"
  define r where "r = div_d (num_of r0) 255"
  define g where "g = div_d (num_of g0) 255"
  define b where "b = div_d (num_of b0) 255"
  define mn where "mn = min (min r g) b"
  define mx where "mx = max (max r g) b"
  define l where "l = lightness mn mx"
  define s where "s = saturation mn mx"
  define t2 where "t2 = chroma_t2 s l"
  define t1 where "t1 = sub_d (mul_d 2 l) t2"
  define val where "val = mul_d l 255"
  have eq: "applyHue (r0, g0, b0) hue =
      (if s = 0 then push_bit 16 (toInt32 val) OR push_bit 8 (toInt32 val) OR toInt32 val
       else push_bit 16 (toInt32 (hue_channel h t1 t2 (- 1)))
              OR push_bit 8 (toInt32 (hue_channel h t1 t2 0))
              OR toInt32 (hue_channel h t1 t2 1))"
    unfolding applyHue_def Let_def prod.case h_def r_def g_def b_def mn_def mx_def l_def s_def
      t2_def t1_def val_def ..
  from assms(4,5) have "0 \<le> hue / 360" "hue / 360 \<le> 1" by simp_all
  then have h: "0 \<le> h" "h \<le> 1"
    unfolding h_def div_d_def by (rule fl_between; simp)+
  have r: "0 \<le> r" "r \<le> 1" unfolding r_def using assms(1) by (rule channel_unit)+
  have g: "0 \<le> g" "g \<le> 1" unfolding g_def using assms(2) by (rule channel_unit)+
  have b: "0 \<le> b" "b \<le> 1" unfolding b_def using assms(3) by (rule channel_unit)+
  from r g b have m: "0 \<le> mn" "mn \<le> mx" "mx \<le> 1" "mn \<le> 1" "0 \<le> mx"
    unfolding mn_def mx_def by simp_all
  have l: "0 \<le> l" "l \<le> 1"
    unfolding l_def using m(1,4,5,3) by (rule lightness_range)+
  have s: "0 \<le> s" "s \<le> 1"
    unfolding s_def using m(1-3) by (rule saturation_range)+
  show ?thesis
  proof (cases "s = 0")
    case True
    from l have "0 \<le> l * 255" "l * 255 \<le> 255" by simp_all
    then have "0 \<le> val" "val \<le> 255"
      unfolding val_def mul_d_def by (rule fl_between; simp)+
    then have "toInt32 val \<le> 0xff" by (intro toInt32_byte) linarith+
    then have "push_bit 16 (toInt32 val) OR push_bit 8 (toInt32 val) OR toInt32 val \<le> 0xffffff"
      by (intro pack_le)
    with True show ?thesis by (simp add: eq)
  next
    case False
    from chroma_range [OF s l] have t:
      "- (1 / 1000) \<le> t1" "t1 \<le> 1 + 1 / 1000" "- (1 / 1000) \<le> t2" "t2 \<le> 1 + 1 / 1000"
      unfolding t1_def t2_def by simp_all
    have "toInt32 (hue_channel h t1 t2 k) \<le> 0xff" if "k = - 1 \<or> k = 0 \<or> k = 1" for k
      using hue_channel_range [OF h that t] by (intro toInt32_byte)
    then have "push_bit 16 (toInt32 (hue_channel h t1 t2 (- 1)))
              OR push_bit 8 (toInt32 (hue_channel h t1 t2 0))
              OR toInt32 (hue_channel h t1 t2 1) \<le> 0xffffff"
      by (intro pack_le) simp_all
    with False show ?thesis by (simp add: eq)
  qed
qed

lemma add_table_no_entry:
  assumes "\<forall>k v. p k = Some v \<longrightarrow> v j = None" and "j \<noteq> i"
  shows "\<forall>k v. add_table i t p k = Some v \<longrightarrow> v j = None"
  using assms(1)
proof (induction t arbitrary: p)
  case Nil
  then show ?case by simp
next
  case (Cons kv t)
  obtain key val where kv: "kv = (key, val)" by (cases kv)
  show ?case
    unfolding kv add_table.simps Let_def
    by (rule Cons.IH) (use Cons.prems assms(2) in \<open>auto split: option.splits\<close>)
qed

lemma build_palettes_no_entry:
  assumes "\<forall>k v. p k = Some v \<longrightarrow> v j = None"
    and "\<forall>m < length vs. n + m = j \<longrightarrow> (\<exists>h. snd (vs ! m) = UniformHue h)"
  shows "\<forall>k v. build_palettes n vs p k = Some v \<longrightarrow> v j = None"
  using assms
proof (induction n vs p rule: build_palettes.induct)
  case (1 i p)
  then show ?case by simp
next
  case (2 i name t vs p)
  from "2.prems"(2) have "j \<noteq> i" by (auto dest: spec [of _ 0])
  with "2.prems"(1) have a: "\<forall>k v. add_table i t p k = Some v \<longrightarrow> v j = None"
    by (rule add_table_no_entry)
  have b: "\<forall>m < length vs. Suc i + m = j \<longrightarrow> (\<exists>h. snd (vs ! m) = UniformHue h)"
    using "2.prems"(2) by (auto dest: spec [of _ "Suc m" for m])
  from "2.IH" [OF a b] show ?case by simp
next
  case (3 i name h vs p)
  have b: "\<forall>m < length vs. Suc i + m = j \<longrightarrow> (\<exists>h. snd (vs ! m) = UniformHue h)"
    using "3.prems"(2) by (auto dest: spec [of _ "Suc m" for m])
  from "3.IH" [OF "3.prems"(1) b] show ?case by simp
qed

section \<open>The error of a rotation\<close>

lemma quotient_near:
  fixes n N d D a b :: real
  assumes "\<bar>n - N\<bar> \<le> a" and "\<bar>d - D\<bar> \<le> b" and "1 / 255 \<le> D" and "\<bar>N\<bar> \<le> D"
    and "b \<le> 1 / 10000"
  shows "\<bar>n / d - N / D\<bar> \<le> 300 * (a + b)"
proof -
  from assms(2,3,5) have d: "1 / 300 \<le> d" by linarith
  then have d0: "0 < d" by linarith
  from assms(3) have D0: "0 < D" by linarith
  from assms(1) have a0: "0 \<le> a" by linarith
  from assms(2) have b0: "0 \<le> b" by linarith
  define q where "q = N / D"
  have q: "\<bar>q\<bar> \<le> 1" unfolding q_def using assms(4) D0 by (simp add: divide_le_eq_1)
  have "N = q * D" unfolding q_def using D0 by simp
  then have "n - q * d = (n - N) + q * (D - d)" by (simp add: algebra_simps)
  moreover have "\<bar>q * (D - d)\<bar> \<le> 1 * b"
    using q assms(2) by (intro abs_mult_le) linarith+
  ultimately have num: "\<bar>n - q * d\<bar> \<le> a + b" using assms(1) by linarith
  have "n / d - q = (n - q * d) / d" using d0 by (simp add: field_simps)
  then have "\<bar>n / d - q\<bar> = \<bar>n - q * d\<bar> / d" using d0 by simp
  also have "\<dots> \<le> (a + b) / d" using num d0 by (simp add: divide_right_mono)
  also have "\<dots> \<le> (a + b) / (1 / 300)"
    using d a0 b0 by (intro divide_left_mono) simp_all
  finally show ?thesis by (simp add: q_def)
qed

lemma channel_near:
  assumes "c \<le> 255"
  shows "\<bar>div_d (real c) 255 - real c / 255\<bar> \<le> eps"
  using assms by (intro div_d_near) simp

lemma channel_strict_mono:
  assumes "a < b" and "b \<le> 255"
  shows "div_d (real a) 255 < div_d (real b) 255"
proof -
  from assms have "real a + 1 \<le> real b" by simp
  then have "real a / 255 + 1 / 255 \<le> real b / 255" by simp
  moreover from assms have "a \<le> 255" by simp
  ultimately show ?thesis
    using channel_near [of a] channel_near [OF assms(2)] eps_bounds by linarith
qed

lemma channel_le_iff:
  assumes "a \<le> 255" and "b \<le> 255"
  shows "div_d (real a) 255 \<le> div_d (real b) 255 \<longleftrightarrow> a \<le> b"
proof (cases "a \<le> b")
  case True
  then have "real a / 255 \<le> real b / 255" by simp
  then have "div_d (real a) 255 \<le> div_d (real b) 255" unfolding div_d_def by (rule fl_mono)
  with True show ?thesis by simp
next
  case False
  then have "b < a" by simp
  from channel_strict_mono [OF this assms(1)] False show ?thesis by simp
qed

lemma channel_eq_iff:
  assumes "a \<le> 255" and "b \<le> 255"
  shows "div_d (real a) 255 = div_d (real b) 255 \<longleftrightarrow> a = b"
  using channel_le_iff [OF assms] channel_le_iff [OF assms(2,1)] by auto

lemma channel_min:
  assumes "a \<le> 255" and "b \<le> 255"
  shows "min (div_d (real a) 255) (div_d (real b) 255) = div_d (real (min a b)) 255"
  using channel_le_iff [OF assms] by (simp add: min_def)

lemma channel_max:
  assumes "a \<le> 255" and "b \<le> 255"
  shows "max (div_d (real a) 255) (div_d (real b) 255) = div_d (real (max a b)) 255"
  using channel_le_iff [OF assms] by (simp add: max_def)

lemma percent_near:
  assumes "\<bar>x\<bar> \<le> 2"
  shows "\<bar>div_d (mul_d x 100) 100 - x\<bar> \<le> 2 * eps"
proof -
  note e = eps_bounds
  define y where "y = mul_d x 100"
  from assms have "\<bar>x * 100\<bar> \<le> 1023" by simp
  then have y: "\<bar>y - x * 100\<bar> \<le> eps" unfolding y_def by (rule mul_d_near)
  then have "\<bar>y / 100 - x\<bar> \<le> eps / 100" by (simp add: field_simps abs_le_iff)
  moreover from y assms e have "\<bar>y / 100\<bar> \<le> 1023" by simp
  then have "\<bar>div_d y 100 - y / 100\<bar> \<le> eps" by (rule div_d_near)
  ultimately show ?thesis unfolding y_def [symmetric] using e by linarith
qed

lemma lightness_near:
  assumes "\<bar>mn - Mn\<bar> \<le> eps" and "\<bar>mx - Mx\<bar> \<le> eps"
    and "0 \<le> Mn" and "Mn \<le> 1" and "0 \<le> Mx" and "Mx \<le> 1"
  shows "\<bar>lightness mn mx - (Mn + Mx) / 2\<bar> \<le> 3 * eps"
proof -
  note e = eps_bounds
  define a where "a = add_d mn mx"
  have a: "\<bar>a - (mn + mx)\<bar> \<le> eps"
    unfolding a_def using assms e by (intro add_d_near) linarith
  have "\<bar>div_d a 2 - a / 2\<bar> \<le> eps"
    using a assms e by (intro div_d_near) simp
  moreover from a assms(1,2) have "\<bar>a / 2 - (Mn + Mx) / 2\<bar> \<le> 2 * eps" by argo
  ultimately have "\<bar>div_d a 2 - (Mn + Mx) / 2\<bar> \<le> 3 * eps" by argo
  then show ?thesis unfolding lightness_def a_def [symmetric] .
qed


lemma product_near:
  fixes x y X Y a b :: real
  assumes "\<bar>x - X\<bar> \<le> a" and "\<bar>y - Y\<bar> \<le> b" and "\<bar>X\<bar> \<le> 2" and "\<bar>y\<bar> \<le> 3"
  shows "\<bar>x * y - X * Y\<bar> \<le> 3 * a + 2 * b"
proof -
  have "x * y - X * Y = (x - X) * y + X * (y - Y)" by (simp add: algebra_simps)
  moreover have "\<bar>(x - X) * y\<bar> \<le> a * 3" using assms(1,4) by (rule abs_mult_le)
  moreover have "\<bar>X * (y - Y)\<bar> \<le> 2 * b" using assms(3,2) by (rule abs_mult_le)
  ultimately show ?thesis by argo
qed

lemma saturation_near:
  assumes "\<bar>mn - Mn\<bar> \<le> eps" and "\<bar>mx - Mx\<bar> \<le> eps"
    and "0 \<le> Mn" and "Mn + 1 / 255 \<le> Mx" and "Mx \<le> 1"
  shows "\<bar>saturation mn mx - (Mx - Mn) / (1 - \<bar>Mx + Mn - 1\<bar>)\<bar> \<le> 6000 * eps"
proof -
  note e = eps_bounds
  define D where "D = 1 - \<bar>Mx + Mn - 1\<bar>"
  define delta where "delta = sub_d mx mn"
  define l where "l = lightness mn mx"
  have D: "1 / 255 \<le> D" "\<bar>Mx - Mn\<bar> \<le> D" unfolding D_def using assms(3-5) by argo+
  have neq: "mx \<noteq> mn" using assms(1,2,4) e by argo
  have "\<bar>mx - mn\<bar> \<le> 1023" using assms e by argo
  then have "\<bar>delta - (mx - mn)\<bar> \<le> eps" unfolding delta_def by (rule sub_d_near)
  with assms(1,2) have delta: "\<bar>delta - (Mx - Mn)\<bar> \<le> 3 * eps" by argo
  have "\<bar>l - (Mn + Mx) / 2\<bar> \<le> 3 * eps"
    unfolding l_def using assms(1,2,3) _ _ assms(5) by (rule lightness_near) (use assms in argo)+
  then have l: "\<bar>2 * l - (Mn + Mx)\<bar> \<le> 6 * eps" by argo
  have quot: "\<bar>div_d delta d - (Mx - Mn) / D\<bar> \<le> 6000 * eps" if d: "\<bar>d - D\<bar> \<le> 16 * eps" for d
  proof -
    from d e have "16 * eps \<le> 1 / 10000" by argo
    from quotient_near [OF delta d D this]
    have q: "\<bar>delta / d - (Mx - Mn) / D\<bar> \<le> 300 * (3 * eps + 16 * eps)" .
    have "\<bar>(Mx - Mn) / D\<bar> \<le> 1" using D by (simp add: divide_le_eq_1)
    with q e have "\<bar>delta / d\<bar> \<le> 1023" by argo
    then have "\<bar>div_d delta d - delta / d\<bar> \<le> eps" by (rule div_d_near)
    with q e show ?thesis by argo
  qed
  show ?thesis
  proof (cases "l \<le> 1 / 2")
    case True
    define d where "d = add_d mx mn"
    have "\<bar>mx + mn\<bar> \<le> 1023" using assms e by argo
    then have "\<bar>d - (mx + mn)\<bar> \<le> eps" unfolding d_def by (rule add_d_near)
    with assms(1,2) l True e have "\<bar>d - D\<bar> \<le> 16 * eps" unfolding D_def by argo
    from quot [OF this] True neq show ?thesis
      by (simp add: saturation_def Let_def delta_def l_def d_def D_def)
  next
    case False
    define c where "c = sub_d 2 mx"
    define d where "d = sub_d c mn"
    have "\<bar>2 - mx\<bar> \<le> 1023" using assms e by argo
    then have c: "\<bar>c - (2 - mx)\<bar> \<le> eps" unfolding c_def by (rule sub_d_near)
    then have "\<bar>c - mn\<bar> \<le> 1023" using assms e by argo
    then have "\<bar>d - (c - mn)\<bar> \<le> eps" unfolding d_def by (rule sub_d_near)
    with c assms(1,2) l False e have "\<bar>d - D\<bar> \<le> 16 * eps" unfolding D_def by argo
    from quot [OF this] False neq show ?thesis
      by (simp add: saturation_def Let_def delta_def l_def d_def c_def D_def)
  qed
qed

lemma chroma_near:
  assumes "\<bar>l - L\<bar> \<le> a" and "\<bar>s - S\<bar> \<le> b"
    and "0 \<le> S" and "S \<le> 1" and "0 \<le> L" and "L \<le> 1"
    and "a \<le> 1 / 1000" and "b \<le> 1 / 1000"
  defines "M \<equiv> S * (1 - \<bar>2 * L - 1\<bar>) / 2"
  shows "\<bar>chroma_t2 s l - (L + M)\<bar> \<le> 9 * a + 4 * b + 4 * eps"
    and "\<bar>sub_d (mul_d 2 l) (chroma_t2 s l) - (L - M)\<bar> \<le> 11 * a + 4 * b + 6 * eps"
proof -
  note e = eps_bounds
  from assms(1) have a0: "0 \<le> a" by argo
  from assms(2) have b0: "0 \<le> b" by argo
  have SL: "0 \<le> S * L" "S * L \<le> L" "S * L \<le> S"
    using assms(3-6) by (simp_all add: mult_left_le mult_left_le_one_le mult_right_le_one_le)
  have t2: "\<bar>chroma_t2 s l - (L + M)\<bar> \<le> 9 * a + 4 * b + 4 * eps"
  proof (cases "l < 1 / 2")
    case True
    define u where "u = add_d 1 s"
    have "\<bar>1 + s\<bar> \<le> 1023" using assms(2,3,4,8) by argo
    then have "\<bar>u - (1 + s)\<bar> \<le> eps" unfolding u_def by (rule add_d_near)
    with assms(2) have u: "\<bar>u - (1 + S)\<bar> \<le> b + eps" by argo
    have "\<bar>l * u - L * (1 + S)\<bar> \<le> 3 * a + 2 * (b + eps)"
      using assms(1) u by (rule product_near) (use assms(3-8) u e in argo)+
    then have lu: "\<bar>l * u - (L + S * L)\<bar> \<le> 3 * a + 2 * b + 2 * eps"
      by (simp add: algebra_simps)
    with SL assms(5,6,7,8) e have "\<bar>l * u\<bar> \<le> 1023" by argo
    then have r: "\<bar>mul_d l u - l * u\<bar> \<le> eps" by (rule mul_d_near)
    have "\<bar>S * L - M\<bar> \<le> 2 * a"
    proof (cases "L \<le> 1 / 2")
      case True
      then have "\<bar>2 * L - 1\<bar> = 1 - 2 * L" by argo
      then have "M = S * (1 - (1 - 2 * L)) / 2" unfolding M_def by (rule arg_cong)
      then have "M = S * L" by (simp add: field_simps)
      with a0 show ?thesis by simp
    next
      case False
      then have "\<bar>2 * L - 1\<bar> = 2 * L - 1" by argo
      then have "M = S * (1 - (2 * L - 1)) / 2" unfolding M_def by (rule arg_cong)
      then have "S * L - M = S * (2 * L - 1)" by (simp add: field_simps)
      moreover have "\<bar>S * (2 * L - 1)\<bar> \<le> 1 * (2 * a)"
        using assms(1,3,4) True False by (intro abs_mult_le) argo+
      ultimately show ?thesis by simp
    qed
    with lu r a0 b0 e have "\<bar>mul_d l u - (L + M)\<bar> \<le> 9 * a + 4 * b + 4 * eps" by argo
    with True show ?thesis by (simp add: chroma_t2_def u_def)
  next
    case False
    define A where "A = add_d l s"
    define B where "B = mul_d l s"
    have "\<bar>l + s\<bar> \<le> 1023" using assms(1-8) by argo
    then have A: "\<bar>A - (l + s)\<bar> \<le> eps" unfolding A_def by (rule add_d_near)
    have "\<bar>s * l - S * L\<bar> \<le> 3 * b + 2 * a"
      using assms(2,1) by (rule product_near) (use assms(1-8) in argo)+
    then have ls: "\<bar>l * s - S * L\<bar> \<le> 2 * a + 3 * b" by (simp add: mult.commute)
    with SL assms(5-8) have "\<bar>l * s\<bar> \<le> 1023" by argo
    then have B: "\<bar>B - l * s\<bar> \<le> eps" unfolding B_def by (rule mul_d_near)
    from A B ls SL assms(1-8) e have "\<bar>A - B\<bar> \<le> 1023" by argo
    then have r: "\<bar>sub_d A B - (A - B)\<bar> \<le> eps" by (rule sub_d_near)
    have "\<bar>(S - S * L) - M\<bar> \<le> 2 * a"
    proof (cases "1 / 2 \<le> L")
      case True
      then have "\<bar>2 * L - 1\<bar> = 2 * L - 1" by argo
      then have "M = S * (1 - (2 * L - 1)) / 2" unfolding M_def by (rule arg_cong)
      then have "M = S - S * L" by (simp add: field_simps)
      with a0 show ?thesis by simp
    next
      case F: False
      then have "\<bar>2 * L - 1\<bar> = 1 - 2 * L" by argo
      then have "M = S * (1 - (1 - 2 * L)) / 2" unfolding M_def by (rule arg_cong)
      then have "(S - S * L) - M = S * (1 - 2 * L)" by (simp add: field_simps)
      moreover have "\<bar>S * (1 - 2 * L)\<bar> \<le> 1 * (2 * a)"
        using assms(1,3,4) False F by (intro abs_mult_le) argo+
      ultimately show ?thesis by simp
    qed
    with A B ls r assms(1,2) a0 b0 e
    have "\<bar>sub_d A B - (L + M)\<bar> \<le> 9 * a + 4 * b + 4 * eps" by argo
    with False show ?thesis by (simp add: chroma_t2_def A_def B_def)
  qed
  define F where "F = mul_d 2 l"
  have "\<bar>2 * l\<bar> \<le> 1023" using assms(1,5,6,7) by argo
  then have F: "\<bar>F - 2 * l\<bar> \<le> eps" unfolding F_def by (rule mul_d_near)
  have M: "0 \<le> M" "M \<le> 1"
  proof -
    have "0 \<le> 1 - \<bar>2 * L - 1\<bar>" "1 - \<bar>2 * L - 1\<bar> \<le> 1" using assms(5,6) by argo+
    then have "0 \<le> S * (1 - \<bar>2 * L - 1\<bar>)" "S * (1 - \<bar>2 * L - 1\<bar>) \<le> 1 * 1"
      using assms(3,4) by (simp, intro mult_mono) simp_all
    then show "0 \<le> M" "M \<le> 1" by (simp_all add: M_def)
  qed
  from F t2 M assms(1,5-8) e have "\<bar>F - chroma_t2 s l\<bar> \<le> 1023" by argo
  then have "\<bar>sub_d F (chroma_t2 s l) - (F - chroma_t2 s l)\<bar> \<le> eps" by (rule sub_d_near)
  with F t2 assms(1) a0 b0 e
  have "\<bar>sub_d F (chroma_t2 s l) - (L - M)\<bar> \<le> 11 * a + 4 * b + 6 * eps"
    by argo
  with t2 show "\<bar>chroma_t2 s l - (L + M)\<bar> \<le> 9 * a + 4 * b + 4 * eps"
    and "\<bar>sub_d (mul_d 2 l) (chroma_t2 s l) - (L - M)\<bar> \<le> 11 * a + 4 * b + 6 * eps"
    by (simp_all add: F_def)
qed


lemma ramp_lipschitz: "\<bar>ramp a - ramp b\<bar> \<le> 6 * \<bar>a - b\<bar>"
  unfolding ramp_def by argo

lemma ramp_outside: "t \<le> 0 \<Longrightarrow> ramp t = 0" "2 / 3 \<le> t \<Longrightarrow> ramp t = 0"
  unfolding ramp_def by argo+

lemma ramp_wrapped_lipschitz: "\<bar>ramp_wrapped a - ramp_wrapped b\<bar> \<le> 18 * \<bar>a - b\<bar>"
  using ramp_lipschitz [of "a - 1" "b - 1"] ramp_lipschitz [of a b]
    ramp_lipschitz [of "a + 1" "b + 1"]
  unfolding ramp_wrapped_def by argo

lemma ramp_wrapped_unit: "0 \<le> t \<Longrightarrow> t \<le> 1 \<Longrightarrow> ramp_wrapped t = ramp t"
  unfolding ramp_wrapped_def by (simp add: ramp_outside)

lemma ramp_wrapped_up: "- 1 \<le> u \<Longrightarrow> u \<le> 1 \<Longrightarrow> ramp_wrapped (u + 1) = ramp_wrapped u"
  unfolding ramp_wrapped_def by (simp add: ramp_outside)

lemma ramp_wrapped_down: "0 \<le> u \<Longrightarrow> u \<le> 2 \<Longrightarrow> ramp_wrapped (u - 1) = ramp_wrapped u"
  unfolding ramp_wrapped_def by (simp add: ramp_outside)

lemma wrap_t3_near:
  assumes "\<bar>x - u\<bar> \<le> a" and "- (1 / 3) \<le> u" and "u \<le> 4 / 3" and "a \<le> 1 / 100"
  shows "\<bar>ramp (wrap_t3 x) - ramp_wrapped u\<bar> \<le> 18 * (a + eps)"
proof -
  note e = eps_bounds
  from assms have x: "- (1 / 2) \<le> x" "x \<le> 3 / 2" by argo+
  have unit: "0 \<le> wrap_t3 x" "wrap_t3 x \<le> 1" using x by (rule wrap_t3_range)+
  have "\<exists>j. \<bar>wrap_t3 x - (u + j)\<bar> \<le> a + eps \<and> ramp_wrapped (u + j) = ramp_wrapped u"
  proof (cases "x < 0")
    case True
    then have "x + 1 \<le> 1" by simp
    then have le: "fl (x + 1) \<le> 1" using fl_mono [of "x + 1" 1] by simp
    have "\<bar>x + 1\<bar> \<le> 1023" using x by argo
    then have "\<bar>add_d x 1 - (x + 1)\<bar> \<le> eps" by (rule add_d_near)
    with assms(1) have "\<bar>add_d x 1 - (u + 1)\<bar> \<le> a + eps" by argo
    moreover have "wrap_t3 x = add_d x 1"
      using True le by (simp add: wrap_t3_def Let_def add_d_def)
    moreover have "ramp_wrapped (u + 1) = ramp_wrapped u"
      using True assms by (intro ramp_wrapped_up) argo+
    ultimately show ?thesis by (intro exI [of _ 1]) simp
  next
    case False
    show ?thesis
    proof (cases "1 < x")
      case True
      have "\<bar>x - 1\<bar> \<le> 1023" using x by argo
      then have "\<bar>sub_d x 1 - (x - 1)\<bar> \<le> eps" by (rule sub_d_near)
      with assms(1) have "\<bar>sub_d x 1 - (u + (- 1))\<bar> \<le> a + eps" by argo
      moreover have "wrap_t3 x = sub_d x 1"
        using True False by (simp add: wrap_t3_def Let_def)
      moreover have "ramp_wrapped (u - 1) = ramp_wrapped u"
        using True assms by (intro ramp_wrapped_down) argo+
      then have "ramp_wrapped (u + (- 1)) = ramp_wrapped u" by simp
      ultimately show ?thesis by (intro exI [of _ "- 1"]) simp
    next
      case F: False
      with False have "wrap_t3 x = x" by (simp add: wrap_t3_def Let_def)
      with assms(1) e have "\<bar>wrap_t3 x - (u + 0)\<bar> \<le> a + eps" by argo
      moreover have "ramp_wrapped (u + 0) = ramp_wrapped u" by simp
      ultimately show ?thesis by (intro exI [of _ 0]) simp
    qed
  qed
  then obtain j where j: "\<bar>wrap_t3 x - (u + j)\<bar> \<le> a + eps"
    "ramp_wrapped (u + j) = ramp_wrapped u" by blast
  from ramp_wrapped_lipschitz [of "wrap_t3 x" "u + j"] j
  have "\<bar>ramp_wrapped (wrap_t3 x) - ramp_wrapped u\<bar> \<le> 18 * (a + eps)" by argo
  then show ?thesis by (simp add: ramp_wrapped_unit [OF unit])
qed

lemma hue_channel_near:
  assumes "0 \<le> h" and "h \<le> 1" and "\<bar>h - H / 360\<bar> \<le> a" and "0 \<le> H" and "H \<le> 360"
    and "k = - 1 \<or> k = 0 \<or> k = 1"
    and "\<bar>t1 - Mn\<bar> \<le> b" and "\<bar>t2 - Mx\<bar> \<le> b"
    and "0 \<le> Mn" and "Mn \<le> Mx" and "Mx \<le> 1"
    and "a \<le> 1 / 1000" and "b \<le> 1 / 1000"
  shows "\<bar>hue_channel h t1 t2 k - 255 * rotated H Mn Mx k\<bar>
           \<le> 10000 * a + 2000 * b + 60000 * eps"
proof -
  note e = eps_bounds
  from assms(3) have a0: "0 \<le> a" by argo
  from assms(7) have b0: "0 \<le> b" by argo
  define c where "c = div_d 1 3"
  define m where "m = mul_d c k"
  define x where "x = add_d h m"
  define t3 where "t3 = wrap_t3 x"
  define val where "val = hue_value t1 t2 t3"
  define k3 where "k3 = k / 3"
  define u where "u = H / 360 + k3"
  have k: "\<bar>k\<bar> \<le> 1" using assms(6) by auto
  then have k3: "\<bar>k3\<bar> \<le> 1" unfolding k3_def by simp
  have c: "\<bar>c - 1 / 3\<bar> \<le> eps" unfolding c_def by (rule div_d_near) simp
  have "\<bar>c * k - (1 / 3) * k\<bar> \<le> eps * 1"
    using abs_mult_le [OF c k] by (simp add: algebra_simps)
  then have ck: "\<bar>c * k - k3\<bar> \<le> eps" by (simp add: k3_def)
  with k3 e have "\<bar>c * k\<bar> \<le> 1023" by argo
  then have "\<bar>m - c * k\<bar> \<le> eps" unfolding m_def by (rule mul_d_near)
  with ck have m: "\<bar>m - k3\<bar> \<le> 2 * eps" by linarith
  with k3 assms(1,2) e have "\<bar>h + m\<bar> \<le> 1023" by argo
  then have "\<bar>x - (h + m)\<bar> \<le> eps" unfolding x_def by (rule add_d_near)
  with m assms(3) have x: "\<bar>x - u\<bar> \<le> a + 3 * eps" unfolding u_def by argo
  have "- (1 / 3) \<le> k3" "k3 \<le> 1 / 3" unfolding k3_def using assms(6) by auto
  then have u: "- (1 / 3) \<le> u" "u \<le> 4 / 3" unfolding u_def using assms(4,5) by argo+
  have "a + 3 * eps \<le> 1 / 100" using assms(12) e by argo
  from wrap_t3_near [OF x u this]
  have rho: "\<bar>ramp t3 - ramp_wrapped u\<bar> \<le> 18 * (a + 4 * eps)" unfolding t3_def by argo
  have xr: "- (1 / 2) \<le> x" "x \<le> 3 / 2"
    unfolding x_def m_def c_def using assms(1,2,6) by (rule hue_offset_range)+
  have t3: "0 \<le> t3" "t3 \<le> 1" unfolding t3_def using xr by (rule wrap_t3_range)+
  have t: "\<bar>t1\<bar> \<le> 2" "\<bar>t2\<bar> \<le> 2" using assms(7-11,13) by argo+
  from hue_value_near [OF t3 t]
  have v: "\<bar>val - (t1 + (t2 - t1) * ramp t3)\<bar> \<le> 80 * eps" unfolding val_def .
  have d: "\<bar>(t2 - t1) - (Mx - Mn)\<bar> \<le> 2 * b" using assms(7,8) by argo
  have "\<bar>(t2 - t1) * ramp t3 - (Mx - Mn) * ramp_wrapped u\<bar> \<le> 3 * (2 * b) + 2 * (18 * (a + 4 * eps))"
    using d rho by (rule product_near) (use assms(9-11) ramp_range [of t3] in argo)+
  with v assms(7) have val: "\<bar>val - rotated H Mn Mx k\<bar> \<le> 7 * b + 36 * a + 224 * eps"
    unfolding rotated_def u_def k3_def by argo
  have range: "- (1 / 1000) \<le> t1 + (t2 - t1) * ramp t3" "t1 + (t2 - t1) * ramp t3 \<le> 1 + 1 / 1000"
    by (rule convex_range [where a = "- (1 / 1000)" and b = "1 + 1 / 1000"];
        use assms(7-11,13) ramp_range [of t3] in argo)+
  with v e have "\<bar>val\<bar> \<le> 2" by argo
  then have "\<bar>val * 255\<bar> \<le> 1023" by argo
  then have "\<bar>mul_d val 255 - val * 255\<bar> \<le> eps" by (rule mul_d_near)
  with val a0 b0 e have "\<bar>mul_d val 255 - 255 * rotated H Mn Mx k\<bar>
           \<le> 10000 * a + 2000 * b + 60000 * eps" by argo
  then show ?thesis
    by (simp add: hue_channel_def val_def t3_def x_def m_def c_def)
qed


lemma ramp_wrapped_range: "0 \<le> ramp_wrapped u" "ramp_wrapped u \<le> 1"
  unfolding ramp_wrapped_def ramp_def by argo+

lemma rotated_range:
  assumes "0 \<le> mn" and "mn \<le> mx" and "mx \<le> 1"
  shows "0 \<le> rotated H mn mx k" and "rotated H mn mx k \<le> 1"
  unfolding rotated_def
  by (rule convex_range [where a = 0 and b = 1]; use assms ramp_wrapped_range in simp)+

lemma rotated_grey [simp]: "rotated H mn mn k = mn"
  by (simp add: rotated_def)

lemma num_of_channel:
  assumes "c \<le> 0xff"
  shows "0 \<le> num_of c" and "num_of c \<le> 255"
    and "\<bar>div_d (num_of c) 255 - num_of c / 255\<bar> \<le> eps"
proof -
  from assms have "unat c \<le> 255" by (simp add: word_le_nat_alt)
  then have "real (unat c) \<le> real 255" by (rule of_nat_mono)
  then show b: "num_of c \<le> 255" unfolding num_of_def by (simp del: of_nat_unat)
  show a: "0 \<le> num_of c" unfolding num_of_def by (rule of_nat_0_le_iff)
  from a b show "\<bar>div_d (num_of c) 255 - num_of c / 255\<bar> \<le> eps"
    by (intro div_d_near) simp
qed

lemma num_of_gap:
  assumes "num_of a < num_of b"
  shows "num_of a + 1 \<le> num_of b"
proof -
  from assms have "unat a < unat b" unfolding num_of_def by (simp del: of_nat_unat)
  then have "unat a + 1 \<le> unat b" by simp
  then have "real (unat a + 1) \<le> real (unat b)" by (rule of_nat_mono)
  then show ?thesis unfolding num_of_def by (simp del: of_nat_unat)
qed

lemma channels_gap:
  assumes "least_channel (r0, g0, b0) \<noteq> greatest_channel (r0, g0, b0)"
  shows "least_channel (r0, g0, b0) + 1 / 255 \<le> greatest_channel (r0, g0, b0)"
proof -
  define lo where "lo = min (min (num_of r0) (num_of g0)) (num_of b0)"
  define hi where "hi = max (max (num_of r0) (num_of g0)) (num_of b0)"
  have "lo \<in> {num_of r0, num_of g0, num_of b0}" unfolding lo_def by (auto simp: min_def)
  then obtain x where x: "lo = num_of x" by auto
  have "hi \<in> {num_of r0, num_of g0, num_of b0}" unfolding hi_def by (auto simp: max_def)
  then obtain y where y: "hi = num_of y" by auto
  have "lo \<le> hi" unfolding lo_def hi_def by argo
  moreover from assms have "lo \<noteq> hi"
    by (simp add: least_channel_def greatest_channel_def lo_def hi_def)
  ultimately have "lo < hi" by simp
  then have "lo + 1 \<le> hi" unfolding x y by (rule num_of_gap)
  then show ?thesis
    by (simp add: least_channel_def greatest_channel_def lo_def hi_def field_simps)
qed


lemma applyHue_channels:
  assumes "r0 \<le> 0xff" and "g0 \<le> 0xff" and "b0 \<le> 0xff" and "0 \<le> H" and "H \<le> 360"
  defines "Mn \<equiv> least_channel (r0, g0, b0)" and "Mx \<equiv> greatest_channel (r0, g0, b0)"
  shows "\<exists>v2 v1 v0.
           applyHue (r0, g0, b0) H
             = push_bit 16 (toInt32 v2) OR push_bit 8 (toInt32 v1) OR toInt32 v0
           \<and> \<bar>v2 - 255 * rotated H Mn Mx (- 1)\<bar> \<le> 1 / 10000
           \<and> \<bar>v1 - 255 * rotated H Mn Mx 0\<bar> \<le> 1 / 10000
           \<and> \<bar>v0 - 255 * rotated H Mn Mx 1\<bar> \<le> 1 / 10000"
proof -
  note e = eps_bounds
  define h where "h = div_d H 360"
  define r where "r = div_d (num_of r0) 255"
  define g where "g = div_d (num_of g0) 255"
  define b where "b = div_d (num_of b0) 255"
  define mn where "mn = min (min r g) b"
  define mx where "mx = max (max r g) b"
  define l where "l = lightness mn mx"
  define s where "s = saturation mn mx"
  define t2 where "t2 = chroma_t2 s l"
  define t1 where "t1 = sub_d (mul_d 2 l) t2"
  define val where "val = mul_d l 255"
  have eq: "applyHue (r0, g0, b0) H =
      (if s = 0 then push_bit 16 (toInt32 val) OR push_bit 8 (toInt32 val) OR toInt32 val
       else push_bit 16 (toInt32 (hue_channel h t1 t2 (- 1)))
              OR push_bit 8 (toInt32 (hue_channel h t1 t2 0))
              OR toInt32 (hue_channel h t1 t2 1))"
    unfolding applyHue_def Let_def prod.case h_def r_def g_def b_def mn_def mx_def l_def s_def
      t2_def t1_def val_def ..
  note R = num_of_channel [OF assms(1)] and G = num_of_channel [OF assms(2)]
    and B = num_of_channel [OF assms(3)]
  have Mn: "Mn = min (min (num_of r0 / 255) (num_of g0 / 255)) (num_of b0 / 255)"
    unfolding Mn_def least_channel_def by (simp add: min_def)
  have Mx: "Mx = max (max (num_of r0 / 255) (num_of g0 / 255)) (num_of b0 / 255)"
    unfolding Mx_def greatest_channel_def by (simp add: max_def)
  have mn: "\<bar>mn - Mn\<bar> \<le> eps"
    unfolding mn_def Mn r_def g_def b_def using R(3) G(3) B(3) by argo
  have mx: "\<bar>mx - Mx\<bar> \<le> eps"
    unfolding mx_def Mx r_def g_def b_def using R(3) G(3) B(3) by argo
  have M: "0 \<le> Mn" "Mn \<le> Mx" "Mx \<le> 1"
    unfolding Mn Mx using R(1,2) G(1,2) B(1,2) by (simp_all add: min_def max_def)
  have la: "\<bar>l - (Mn + Mx) / 2\<bar> \<le> 3 * eps"
    unfolding l_def using mn mx by (rule lightness_near) (use M in argo)+
  show ?thesis
  proof (cases "Mn = Mx")
    case True
    then have "num_of r0 = num_of g0" "num_of g0 = num_of b0"
      unfolding Mn Mx by (simp_all add: min_def max_def split: if_splits)
    then have "mx = mn" unfolding mx_def mn_def r_def g_def b_def by simp
    then have s0: "s = 0" by (simp add: s_def saturation_def Let_def)
    from la True have "\<bar>l * 255 - 255 * Mn\<bar> \<le> 765 * eps" by argo
    moreover from this M e True have "\<bar>l * 255\<bar> \<le> 1023" by argo
    then have "\<bar>val - l * 255\<bar> \<le> eps" unfolding val_def by (rule mul_d_near)
    ultimately have "\<bar>val - 255 * Mn\<bar> \<le> 1 / 10000" using e by argo
    then have "\<bar>val - 255 * rotated H Mn Mx k\<bar> \<le> 1 / 10000" for k
      using True by simp
    with s0 eq show ?thesis by auto
  next
    case False
    then have gap: "Mn + 1 / 255 \<le> Mx" unfolding Mn_def Mx_def by (rule channels_gap)
    define D where "D = 1 - \<bar>Mx + Mn - 1\<bar>"
    define S where "S = (Mx - Mn) / D"
    define L where "L = (Mn + Mx) / 2"
    have D: "1 / 255 \<le> D" "Mx - Mn \<le> D" "D \<le> 1" unfolding D_def using M gap by argo+
    have D0: "0 < D" using D(1) by argo
    have delta: "0 \<le> Mx - Mn" "1 / 255 \<le> Mx - Mn" using gap by argo+
    have "(Mx - Mn) * D \<le> (Mx - Mn) * 1" using D(3) delta(1) by (rule mult_left_mono)
    then have "Mx - Mn \<le> S" unfolding S_def using D0 by (simp add: le_divide_eq)
    with delta(2) have S3: "1 / 255 \<le> S" by argo
    have S1: "0 \<le> S" unfolding S_def using delta(1) D0 by simp
    have S2: "S \<le> 1" unfolding S_def using D(2) D0 by (simp add: divide_le_eq_1)
    note S = S1 S2 S3
    have sa: "\<bar>s - S\<bar> \<le> 6000 * eps"
      unfolding s_def S_def D_def using mn mx M(1) gap M(3) by (rule saturation_near)
    with S(3) e have s0: "s \<noteq> 0" by argo
    have L: "0 \<le> L" "L \<le> 1" unfolding L_def using M by argo+
    have "1 - \<bar>2 * L - 1\<bar> = D" unfolding L_def D_def by argo
    moreover have "S * D = Mx - Mn" unfolding S_def using D(1) by simp
    ultimately have half: "S * (1 - \<bar>2 * L - 1\<bar>) / 2 = (Mx - Mn) / 2" by simp
    have la': "\<bar>l - L\<bar> \<le> 3 * eps" using la by (simp add: L_def)
    have small: "3 * eps \<le> 1 / 1000" "6000 * eps \<le> 1 / 1000" using e by argo+
    from chroma_near [OF la' sa S(1,2) L small]
    have "\<bar>t2 - (L + (Mx - Mn) / 2)\<bar> \<le> 9 * (3 * eps) + 4 * (6000 * eps) + 4 * eps"
      and "\<bar>t1 - (L - (Mx - Mn) / 2)\<bar> \<le> 11 * (3 * eps) + 4 * (6000 * eps) + 6 * eps"
      unfolding half t2_def t1_def by simp_all
    then have t: "\<bar>t1 - Mn\<bar> \<le> 25000 * eps" "\<bar>t2 - Mx\<bar> \<le> 25000 * eps"
      unfolding L_def using e by argo+
    from assms(4,5) have "0 \<le> H / 360" "H / 360 \<le> 1" by simp_all
    then have h: "0 \<le> h" "h \<le> 1"
      unfolding h_def div_d_def by (rule fl_between; simp)+
    from assms(4,5) have "\<bar>H / 360\<bar> \<le> 1023" by simp
    then have ha: "\<bar>h - H / 360\<bar> \<le> eps" unfolding h_def by (rule div_d_near)
    have small': "eps \<le> 1 / 1000" "25000 * eps \<le> 1 / 1000" using e by argo+
    have "\<bar>hue_channel h t1 t2 k - 255 * rotated H Mn Mx k\<bar> \<le> 1 / 10000"
      if k: "k = - 1 \<or> k = 0 \<or> k = 1" for k
    proof -
      from hue_channel_near [OF h ha assms(4,5) k t M small']
      have "\<bar>hue_channel h t1 t2 k - 255 * rotated H Mn Mx k\<bar>
          \<le> 10000 * eps + 2000 * (25000 * eps) + 60000 * eps" .
      with e show ?thesis by argo
    qed
    then have "\<bar>hue_channel h t1 t2 (- 1) - 255 * rotated H Mn Mx (- 1)\<bar> \<le> 1 / 10000"
      "\<bar>hue_channel h t1 t2 0 - 255 * rotated H Mn Mx 0\<bar> \<le> 1 / 10000"
      "\<bar>hue_channel h t1 t2 1 - 255 * rotated H Mn Mx 1\<bar> \<le> 1 / 10000"
      by simp_all
    with s0 eq show ?thesis by auto
  qed
qed


lemma toInt32_truncates:
  assumes "\<bar>v - x\<bar> \<le> 1 / 10000" and "0 \<le> x" and "x \<le> 255"
  shows "toInt32 v \<le> 0xff" and "truncates (num_of (toInt32 v)) x"
proof -
  define n where "n = (if 0 \<le> v then \<lfloor>v\<rfloor> else \<lceil>v\<rceil>)"
  from assms have v: "- 1 < v" "v < 256" by argo+
  then show "toInt32 v \<le> 0xff" by (rule toInt32_byte)
  have n: "0 \<le> n" "n \<le> 255"
    using v unfolding n_def by (auto simp: le_floor_iff floor_le_iff ceiling_le_iff le_ceiling_iff; linarith)+
  then have "unat (word_of_int n :: u32) = nat n"
    by (simp add: unat_eq_nat_uint uint_word_of_int take_bit_int_eq_self)
  then have num: "num_of (toInt32 v) = real_of_int n"
    using n unfolding num_of_def toInt32_def n_def [symmetric] by (simp del: of_nat_unat)
  have "v - 1 < real_of_int n \<or> (v < 0 \<and> n = 0)" "real_of_int n \<le> v \<or> (v < 0 \<and> n = 0)"
    using v unfolding n_def by (auto simp: ceiling_eq_iff; linarith)+
  with assms show "truncates (num_of (toInt32 v)) x"
    unfolding truncates_def num by (auto; argo)
qed

lemma unpack_bytes:
  assumes "c2 \<le> 0xff" and "c1 \<le> 0xff" and "c0 \<le> (0xff :: u32)"
  shows "int32ToRgb (push_bit 16 c2 OR push_bit 8 c1 OR c0) = (c2, c1, c0)"
proof -
  have t: "take_bit 8 c2 = c2" "take_bit 8 c1 = c1" "take_bit 8 c0 = c0"
    by (rule bit_word_eqI, auto simp: bit_simps dest: byte_bits [OF assms(1)]
          byte_bits [OF assms(2)] byte_bits [OF assms(3)])+
  have "take_bit 8 (drop_bit 16 (push_bit 16 c2 OR push_bit 8 c1 OR c0)) = take_bit 8 c2"
    by (rule bit_word_eqI)
      (auto simp: bit_simps dest: byte_bits [OF assms(2)] byte_bits [OF assms(3)])
  moreover have "take_bit 8 (drop_bit 8 (push_bit 16 c2 OR push_bit 8 c1 OR c0)) = take_bit 8 c1"
    by (rule bit_word_eqI)
      (auto simp: bit_simps dest: byte_bits [OF assms(1)] byte_bits [OF assms(3)])
  moreover have "take_bit 8 (push_bit 16 c2 OR push_bit 8 c1 OR c0) = take_bit 8 c0"
    by (rule bit_word_eqI) (auto simp: bit_simps)
  ultimately show ?thesis by (simp add: int32ToRgb_bytes t)
qed

lemma key_of_written:
  assumes "x \<le> 0xffffff"
  shows "(push_bit 24 a OR x) AND 0x00ffffff = (x :: u32)"
proof -
  from assms have "unat x < 2 ^ 24" by (simp add: word_le_nat_alt)
  then have d: "drop_bit 24 x = 0"
    by (simp add: drop_bit_eq_div unat_eq_zero [symmetric] unat_div del: unat_eq_zero)
  have hi: "n < 24" if "bit x n" for n
  proof (rule ccontr)
    assume "\<not> n < 24"
    with that have "bit (drop_bit 24 x) (n - 24)" by (simp add: bit_drop_bit_eq)
    with d show False by simp
  qed
  show ?thesis
    unfolding mask_numerals
    by (rule bit_word_eqI) (auto simp: bit_simps dest: hi)
qed


lemma channel_bounds:
  assumes "r0 \<le> 0xff" and "g0 \<le> 0xff" and "b0 \<le> 0xff"
  shows "0 \<le> least_channel (r0, g0, b0)"
    and "least_channel (r0, g0, b0) \<le> greatest_channel (r0, g0, b0)"
    and "greatest_channel (r0, g0, b0) \<le> 1"
  using num_of_channel(1,2) [OF assms(1)] num_of_channel(1,2) [OF assms(2)]
    num_of_channel(1,2) [OF assms(3)]
  by (simp_all add: least_channel_def greatest_channel_def min_def max_def)

lemma written_channels:
  fixes p a :: u32
  assumes "0 \<le> H" and "H \<le> 360"
  defines "rgb \<equiv> int32ToRgb (p AND 0x00ffffff)"
  defines "out \<equiv> int32ToRgb ((push_bit 24 a OR applyHue rgb H) AND 0x00ffffff)"
  shows "truncates (num_of (fst out))
           (255 * rotated H (least_channel rgb) (greatest_channel rgb) (- 1))"
    and "truncates (num_of (fst (snd out)))
           (255 * rotated H (least_channel rgb) (greatest_channel rgb) 0)"
    and "truncates (num_of (snd (snd out)))
           (255 * rotated H (least_channel rgb) (greatest_channel rgb) 1)"
proof -
  obtain r0 g0 b0 where rgb: "rgb = (r0, g0, b0)" by (cases rgb)
  then have bytes: "r0 \<le> 0xff" "g0 \<le> 0xff" "b0 \<le> 0xff"
    unfolding rgb_def int32ToRgb_bytes prod.inject by (metis byte_le)+
  define Mn where "Mn = least_channel (r0, g0, b0)"
  define Mx where "Mx = greatest_channel (r0, g0, b0)"
  note M = channel_bounds [OF bytes, folded Mn_def Mx_def]
  from applyHue_channels [OF bytes assms(1,2), folded Mn_def Mx_def]
  obtain v2 v1 v0 where
    eq: "applyHue (r0, g0, b0) H
           = push_bit 16 (toInt32 v2) OR push_bit 8 (toInt32 v1) OR toInt32 v0"
    and v2: "\<bar>v2 - 255 * rotated H Mn Mx (- 1)\<bar> \<le> 1 / 10000"
    and v1: "\<bar>v1 - 255 * rotated H Mn Mx 0\<bar> \<le> 1 / 10000"
    and v0: "\<bar>v0 - 255 * rotated H Mn Mx 1\<bar> \<le> 1 / 10000"
    by blast
  have range: "0 \<le> 255 * rotated H Mn Mx k" "255 * rotated H Mn Mx k \<le> 255" for k
    using rotated_range [OF M, of H k] by simp_all
  note t2 = toInt32_truncates [OF v2 range] and t1 = toInt32_truncates [OF v1 range]
    and t0 = toInt32_truncates [OF v0 range]
  have "applyHue (r0, g0, b0) H \<le> 0xffffff"
    unfolding eq using t2(1) t1(1) t0(1) by (rule pack_le)
  then have "(push_bit 24 a OR applyHue (r0, g0, b0) H) AND 0x00ffffff = applyHue (r0, g0, b0) H"
    by (rule key_of_written)
  then have "out = (toInt32 v2, toInt32 v1, toInt32 v0)"
    unfolding out_def rgb eq using t2(1) t1(1) t0(1) by (simp add: unpack_bytes)
  with t2(2) t1(2) t0(2) show "truncates (num_of (fst out))
           (255 * rotated H (least_channel rgb) (greatest_channel rgb) (- 1))"
    and "truncates (num_of (fst (snd out)))
           (255 * rotated H (least_channel rgb) (greatest_channel rgb) 0)"
    and "truncates (num_of (snd (snd out)))
           (255 * rotated H (least_channel rgb) (greatest_channel rgb) 1)"
    by (simp_all add: rgb Mn_def Mx_def)
qed


lemma hue_of_shapes:
  fixes mn d x :: real
  assumes "0 < d" and "0 \<le> x" and "x \<le> d"
  shows "hue_of (mn + d, mn + x, mn) = 60 * (x / d)"
    and "0 < x \<Longrightarrow> hue_of (mn + d, mn, mn + x) = 360 - 60 * (x / d)"
    and "hue_of (mn + x, mn + d, mn) = 60 * (2 - x / d)"
    and "hue_of (mn, mn + d, mn + x) = 60 * (2 + x / d)"
    and "hue_of (mn, mn + x, mn + d) = 60 * (4 - x / d)"
    and "x < d \<Longrightarrow> hue_of (mn + x, mn, mn + d) = 60 * (4 + x / d)"
proof -
  show "hue_of (mn + d, mn + x, mn) = 60 * (x / d)"
    using assms by (auto simp: hue_of_def Let_def min_def max_def field_simps)
  show "hue_of (mn + d, mn, mn + x) = 360 - 60 * (x / d)" if "0 < x"
    using assms that by (auto simp: hue_of_def Let_def min_def max_def field_simps)
  show "hue_of (mn + x, mn + d, mn) = 60 * (2 - x / d)"
    using assms by (auto simp: hue_of_def Let_def min_def max_def field_simps)
  show "hue_of (mn, mn + d, mn + x) = 60 * (2 + x / d)"
    using assms by (auto simp: hue_of_def Let_def min_def max_def field_simps)
  show "hue_of (mn, mn + x, mn + d) = 60 * (4 - x / d)"
    using assms by (auto simp: hue_of_def Let_def min_def max_def field_simps)
  show "hue_of (mn + x, mn, mn + d) = 60 * (4 + x / d)" if "x < d"
    using assms that by (auto simp: hue_of_def Let_def min_def max_def field_simps)
qed

lemma rotated_sextants:
  fixes H mn mx :: real
  defines "r \<equiv> rotated H mn mx 1" and "g \<equiv> rotated H mn mx 0" and "b \<equiv> rotated H mn mx (- 1)"
  defines "d \<equiv> mx - mn"
  shows "0 \<le> H \<Longrightarrow> H < 60 \<Longrightarrow> r = mn + d \<and> g = mn + d * (H / 60) \<and> b = mn"
    and "60 \<le> H \<Longrightarrow> H < 120 \<Longrightarrow> r = mn + d * (2 - H / 60) \<and> g = mn + d \<and> b = mn"
    and "120 \<le> H \<Longrightarrow> H < 180 \<Longrightarrow> r = mn \<and> g = mn + d \<and> b = mn + d * (H / 60 - 2)"
    and "180 \<le> H \<Longrightarrow> H < 240 \<Longrightarrow> r = mn \<and> g = mn + d * (4 - H / 60) \<and> b = mn + d"
    and "240 \<le> H \<Longrightarrow> H < 300 \<Longrightarrow> r = mn + d * (H / 60 - 4) \<and> g = mn \<and> b = mn + d"
    and "300 \<le> H \<Longrightarrow> H < 360 \<Longrightarrow> r = mn + d \<and> g = mn \<and> b = mn + d * (6 - H / 60)"
proof -
  define w where "w k = ramp_wrapped (H / 360 + k)" for k
  have rgb: "r = mn + d * w (1 / 3)" "g = mn + d * w 0" "b = mn + d * w (- (1 / 3))"
    by (simp_all add: r_def g_def b_def d_def rotated_def w_def)
  show "r = mn + d \<and> g = mn + d * (H / 60) \<and> b = mn" if "0 \<le> H" "H < 60"
  proof -
    have "w (1 / 3) = 1" "w 0 = H / 60" "w (- (1 / 3)) = 0"
      unfolding w_def ramp_wrapped_def ramp_def using that by argo+
    then show ?thesis by (simp add: rgb)
  qed
  show "r = mn + d * (2 - H / 60) \<and> g = mn + d \<and> b = mn" if "60 \<le> H" "H < 120"
  proof -
    have "w (1 / 3) = 2 - H / 60" "w 0 = 1" "w (- (1 / 3)) = 0"
      unfolding w_def ramp_wrapped_def ramp_def using that by argo+
    then show ?thesis by (simp add: rgb)
  qed
  show "r = mn \<and> g = mn + d \<and> b = mn + d * (H / 60 - 2)" if "120 \<le> H" "H < 180"
  proof -
    have "w (1 / 3) = 0" "w 0 = 1" "w (- (1 / 3)) = H / 60 - 2"
      unfolding w_def ramp_wrapped_def ramp_def using that by argo+
    then show ?thesis by (simp add: rgb)
  qed
  show "r = mn \<and> g = mn + d * (4 - H / 60) \<and> b = mn + d" if "180 \<le> H" "H < 240"
  proof -
    have "w (1 / 3) = 0" "w 0 = 4 - H / 60" "w (- (1 / 3)) = 1"
      unfolding w_def ramp_wrapped_def ramp_def using that by argo+
    then show ?thesis by (simp add: rgb)
  qed
  show "r = mn + d * (H / 60 - 4) \<and> g = mn \<and> b = mn + d" if "240 \<le> H" "H < 300"
  proof -
    have "w (1 / 3) = H / 60 - 4" "w 0 = 0" "w (- (1 / 3)) = 1"
      unfolding w_def ramp_wrapped_def ramp_def using that by argo+
    then show ?thesis by (simp add: rgb)
  qed
  show "r = mn + d \<and> g = mn \<and> b = mn + d * (6 - H / 60)" if "300 \<le> H" "H < 360"
  proof -
    have "w (1 / 3) = 1" "w 0 = 0" "w (- (1 / 3)) = 6 - H / 60"
      unfolding w_def ramp_wrapped_def ramp_def using that by argo+
    then show ?thesis by (simp add: rgb)
  qed
qed


lemma scaled_range:
  fixes d q :: real
  assumes "0 < d" and "0 \<le> q" and "q \<le> 1"
  shows "0 \<le> d * q" and "d * q \<le> d" and "d * q / d = q"
    and "0 < q \<Longrightarrow> 0 < d * q" and "q < 1 \<Longrightarrow> d * q < d"
  using assms by (simp_all add: mult_le_cancel_left1 mult_less_cancel_left1)

lemma hue_of_rotated:
  fixes H mn mx :: real
  assumes "0 \<le> H" and "H < 360" and "mn < mx"
  defines "r \<equiv> rotated H mn mx 1" and "g \<equiv> rotated H mn mx 0" and "b \<equiv> rotated H mn mx (- 1)"
  shows "hue_of (r, g, b) = H \<and> min (min r g) b = mn \<and> max (max r g) b = mx"
proof -
  define d where "d = mx - mn"
  have d: "0 < d" using assms(3) by (simp add: d_def)
  have mx: "mx = mn + d" by (simp add: d_def)
  note sx = rotated_sextants [of H mn mx, folded r_def g_def b_def d_def]
  note sh = hue_of_shapes [OF d, of _ mn]
  from assms(1,2) consider "H < 60" | "60 \<le> H" "H < 120" | "120 \<le> H" "H < 180"
    | "180 \<le> H" "H < 240" | "240 \<le> H" "H < 300" | "300 \<le> H" by linarith
  then show ?thesis
  proof cases
    case 1
    define q where "q = H / 60"
    have q: "0 \<le> q" "q \<le> 1" using assms(1) 1 by (simp_all add: q_def)
    note x = scaled_range [OF d q]
    from sx(1) [OF assms(1) 1] have rgb: "r = mn + d" "g = mn + d * q" "b = mn"
      by (simp_all add: q_def)
    from sh(1) [OF x(1,2)] x(1,2) d show ?thesis
      unfolding rgb mx by (simp add: x(3) q_def min_def max_def)
  next
    case 2
    define q where "q = 2 - H / 60"
    have q: "0 \<le> q" "q \<le> 1" using 2 by (simp_all add: q_def)
    note x = scaled_range [OF d q]
    from sx(2) [OF 2] have rgb: "r = mn + d * q" "g = mn + d" "b = mn"
      by (simp_all add: q_def)
    from sh(3) [OF x(1,2)] x(1,2) d show ?thesis
      unfolding rgb mx by (simp add: x(3) q_def min_def max_def)
  next
    case 3
    define q where "q = H / 60 - 2"
    have q: "0 \<le> q" "q \<le> 1" using 3 by (simp_all add: q_def)
    note x = scaled_range [OF d q]
    from sx(3) [OF 3] have rgb: "r = mn" "g = mn + d" "b = mn + d * q"
      by (simp_all add: q_def)
    from sh(4) [OF x(1,2)] x(1,2) d show ?thesis
      unfolding rgb mx by (simp add: x(3) q_def min_def max_def)
  next
    case 4
    define q where "q = 4 - H / 60"
    have q: "0 \<le> q" "q \<le> 1" using 4 by (simp_all add: q_def)
    note x = scaled_range [OF d q]
    from sx(4) [OF 4] have rgb: "r = mn" "g = mn + d * q" "b = mn + d"
      by (simp_all add: q_def)
    from sh(5) [OF x(1,2)] x(1,2) d show ?thesis
      unfolding rgb mx by (simp add: x(3) q_def min_def max_def)
  next
    case 5
    define q where "q = H / 60 - 4"
    have q: "0 \<le> q" "q \<le> 1" "q < 1" using 5 by (simp_all add: q_def)
    note x = scaled_range [OF d q(1,2)]
    from sx(5) [OF 5] have rgb: "r = mn + d * q" "g = mn" "b = mn + d"
      by (simp_all add: q_def)
    from sh(6) [OF x(1,2) x(5) [OF q(3)]] x(1,2) d show ?thesis
      unfolding rgb mx by (simp add: x(3) q_def min_def max_def)
  next
    case 6
    define q where "q = 6 - H / 60"
    have q: "0 \<le> q" "q \<le> 1" "0 < q" using 6 assms(2) by (simp_all add: q_def)
    note x = scaled_range [OF d q(1,2)]
    from sx(6) [OF 6 assms(2)] have rgb: "r = mn + d" "g = mn" "b = mn + d * q"
      by (simp_all add: q_def)
    from sh(2) [OF x(1,2) x(4) [OF q(3)]] x(1,2) d show ?thesis
      unfolding rgb mx by (simp add: x(3) q_def min_def max_def)
  qed
qed

section \<open>A variant of one hue\<close>

lemma fold_variant_step_kept:
  assumes "\<And>st. buffers (variant_step env idx i st) = buffers st"
  shows "buffers (fold (variant_step env idx) is st) ! i = buffers st ! i"
proof (induction "is" arbitrary: st)
  case Nil
  then show ?case by simp
next
  case (Cons x xs)
  then show ?case
    by (cases "x = i") (simp_all add: assms variant_step_other_buffer)
qed

lemma hue_parts:
  "div_d 120 360 = 6004799503160661 / 18014398509481984"
  "hue_channel (6004799503160661 / 18014398509481984) 0 1 (- 1) = 0"
  "hue_channel (6004799503160661 / 18014398509481984) 0 1 0 = 255"
  "hue_channel (6004799503160661 / 18014398509481984) 0 1 1 = 0"
  by (simp_all add: op_eval fl_eval)

lemma applyHue_to_120: "applyHue (0, 0, 0xff) 120 = 0xff00"
  by (simp add: applyHue_def Let_def num_of_def green_parts hue_parts toInt32_def)

lemma alpha_parts: "alpha_of 0xff0000ff = 0xff"
  by (simp add: alpha_of_def)

lemma rgb_parts:
  "int32ToRgb (0xff0000ff AND 0x00ffffff) = (0, 0, 0xff)" "int32ToRgb 0xff = (0, 0, 0xff)"
  by (simp_all add: int32ToRgb_def)

lemma variant_step_hue:
  assumes "\<not> is_static env (read_pixel (env_pixels env) idx AND 0x00ffffff)"
    and "env_hues env ! i = Some H" and "H \<noteq> 0"
  shows "variant_step env idx i st =
           write_pixel i idx
             (push_bit 24 (alpha_of (read_pixel (env_pixels env) idx))
                OR applyHue (int32ToRgb (read_pixel (env_pixels env) idx AND 0x00ffffff)) H) st"
  using assms by (simp add: variant_step_def Let_def truthy_def)

lemma variant_step_hue_zero:
  assumes "\<not> is_static env (read_pixel (env_pixels env) idx AND 0x00ffffff)"
    and "env_hues env ! i = Some 0"
    and "\<And>c. (case env_palettes env c of None \<Rightarrow> None | Some v \<Rightarrow> v i) = None"
  shows "env_static env = None
           \<Longrightarrow> variant_step env idx i st = write_pixel i idx (read_pixel (env_pixels env) idx) st"
    and "env_static env \<noteq> None \<Longrightarrow> buffers (variant_step env idx i st) = buffers st"
  using assms by (auto simp: variant_step_def Let_def truthy_def)

text \<open>
  What the loop writes for a variant given by one hue \<open>H\<close>: a pixel that is not
  transparent and not static is, for \<open>H\<close> other than 0, written as the alpha of the
  source pixel over \<^verbatim>\<open>applyHue\<close> of its key at \<open>H\<close>, and the alpha byte of what is written
  is that of the source pixel. For \<open>H = 0\<close> the test \<^verbatim>\<open>if (hue)\<close> fails.
\<close>

lemma uniform_hue_pixel:
  assumes "scan_image img inputVariants staticColors options = Inr st"
    and "idx < width img * height img"
    and "idx < length (pixels img)"
    and "alpha_of (pixels img ! idx) \<noteq> 0"
    and "\<not> is_static (make_env img inputVariants staticColors options)
             ((pixels img ! idx) AND 0x00ffffff)"
    and "i < length inputVariants"
    and "snd (inputVariants ! i) = UniformHue H"
    and "0 \<le> H" and "H \<le> 360"
  shows "buffers st ! i ! idx =
           (if H \<noteq> 0
            then push_bit 24 (alpha_of (pixels img ! idx))
                   OR applyHue (int32ToRgb ((pixels img ! idx) AND 0x00ffffff)) H
            else if staticColors = None then pixels img ! idx else 0)
    \<and> alpha_of (push_bit 24 (alpha_of (pixels img ! idx))
                   OR applyHue (int32ToRgb ((pixels img ! idx) AND 0x00ffffff)) H)
        = alpha_of (pixels img ! idx)"
proof -
  let ?env = "make_env img inputVariants staticColors options"
  let ?p = "pixels img ! idx"
  let ?init = "\<lparr>buffers = replicate (length inputVariants) (replicate (width img * height img) 0),
                missing = []\<rparr>"
  let ?ixs = "concat (map (row_indices (width img)) [0..<height img])"
  have rd: "read_pixel (env_pixels ?env) idx = ?p"
    using assms(3) by (simp add: make_env_def read_pixel_def)
  have names: "length (env_names ?env) = length inputVariants"
    by (simp add: make_env_def)
  have hue: "env_hues ?env ! i = Some H"
    using assms(6,7) by (simp add: make_env_def variant_hue_def)
  have st: "st = fold (process_pixel ?env) ?ixs ?init"
    by (rule scan_image_buffers [OF assms(1)])
  have visited: "idx \<in> set ?ixs" by (rule index_visited [OF assms(2)])
  have "\<forall>k v. build_palettes 0 inputVariants Map.empty k = Some v \<longrightarrow> v i = None"
    by (rule build_palettes_no_entry) (use assms(7) in auto)
  then have entry: "(case env_palettes ?env c of None \<Rightarrow> None | Some v \<Rightarrow> v i) = None" for c
    by (auto simp: make_env_def split: option.splits)
  obtain r0 g0 b0 where rgb: "int32ToRgb (?p AND 0x00ffffff) = (r0, g0, b0)"
    by (cases "int32ToRgb (?p AND 0x00ffffff)")
  then have "r0 \<le> 0xff" "g0 \<le> 0xff" "b0 \<le> 0xff"
    unfolding int32ToRgb_bytes prod.inject by (metis byte_le)+
  then have "applyHue (r0, g0, b0) H \<le> 0xffffff"
    using assms(8,9) by (rule applyHue_le)
  then have alpha: "alpha_of (push_bit 24 (alpha_of ?p) OR applyHue (int32ToRgb (?p AND 0x00ffffff)) H)
      = alpha_of ?p"
    unfolding rgb by (rule alpha_kept)
  have buffer: "buffers st ! i ! idx =
           (if H \<noteq> 0
            then push_bit 24 (alpha_of ?p) OR applyHue (int32ToRgb (?p AND 0x00ffffff)) H
            else if staticColors = None then ?p else 0)"
  proof (cases "H = 0")
    case False
    let ?v = "push_bit 24 (alpha_of ?p) OR applyHue (int32ToRgb (?p AND 0x00ffffff)) H"
    have step: "variant_step ?env idx i st' = write_pixel i idx ?v st'" for st'
      using variant_step_hue [OF _ hue False, of idx st'] assms(5) by (simp add: rd)
    have written: "buffers (process_pixel ?env idx st') ! i ! idx = ?v"
      if "i < length (buffers st')" "idx < length (buffers st' ! i)" for st'
      using assms(4,6) that
      by (simp add: process_pixel_def rd names fold_variant_step_written [OF step])
    have "buffers st ! i ! idx = ?v"
      unfolding st
      by (rule fold_process_pixel_written [OF written visited]) (use assms(2,6) in simp_all)
    with False show ?thesis by simp
  next
    case True
    with hue have hue0: "env_hues ?env ! i = Some 0" by simp
    show ?thesis
    proof (cases "staticColors = None")
      case None: True
      have "env_static ?env = None" using None by (simp add: make_env_def)
      then have step: "variant_step ?env idx i st' = write_pixel i idx ?p st'" for st'
        using variant_step_hue_zero(1) [OF _ hue0 entry, of idx st'] assms(5) by (simp add: rd)
      have written: "buffers (process_pixel ?env idx st') ! i ! idx = ?p"
        if "i < length (buffers st')" "idx < length (buffers st' ! i)" for st'
        using assms(4,6) that
        by (simp add: process_pixel_def rd names fold_variant_step_written [OF step])
      have "buffers st ! i ! idx = ?p"
        unfolding st
        by (rule fold_process_pixel_written [OF written visited]) (use assms(2,6) in simp_all)
      with True None show ?thesis by simp
    next
      case False
      have "env_static ?env \<noteq> None" using False by (auto simp: make_env_def)
      then have step: "buffers (variant_step ?env idx i st') = buffers st'" for st'
        using variant_step_hue_zero(2) [OF _ hue0 entry, of idx st'] assms(5) by (simp add: rd)
      have "buffers (process_pixel ?env idx st') ! i ! idx = buffers st' ! i ! idx" for st'
        by (simp add: process_pixel_def fold_variant_step_kept [OF step])
      then have "buffers st ! i ! idx = buffers ?init ! i ! idx"
        unfolding st by (rule fold_process_pixel_skipped)
      with True False assms(2,6) show ?thesis by auto
    qed
  qed
  from buffer alpha show ?thesis by (rule conjI)
qed


text \<open>
  Claim C3. A variant given by one hue \<open>H\<close> of the range of hues, 0 to 360, and a
  pixel that is not transparent and not static. For \<open>H\<close> other than 0 the pixel written
  is the alpha of the source pixel over \<^verbatim>\<open>applyHue\<close> of its key at \<open>H\<close>; its alpha byte is
  that of the source pixel, and each of its colour bytes is the channel of the exact
  colour \<open>rotated H Mn Mx\<close>, times 255 and cut to an integer, \<open>Mn\<close> and \<open>Mx\<close> being the
  least and the greatest channel of the source pixel. The byte at bit 16 is the
  channel of offset \<open>-1\<close> (blue), the byte at bit 8 that of offset 0 (green), the low
  byte that of offset 1 (red). That exact colour has the hue \<open>H\<close>, and its least and
  greatest channel, hence its saturation and lightness, are those of the source pixel
  (for a grey pixel, \<open>Mn = Mx\<close>, it is that grey). For \<open>H = 0\<close> the test \<^verbatim>\<open>if (hue)\<close> fails and
  \<^verbatim>\<open>applyHue\<close> is not called: no table has an entry for this variant, so the source pixel
  is copied when there are no static colours, and otherwise nothing is written, the
  zero of the buffer stays and the pixel is recorded as missing.
\<close>

theorem uniform_hue_rotates:
  fixes img :: ImageData and idx :: nat and H :: number
  defines "p \<equiv> pixels img ! idx"
  defines "rgb \<equiv> int32ToRgb (p AND 0x00ffffff)"
  defines "written \<equiv> push_bit 24 (alpha_of p) OR applyHue rgb H"
  defines "out \<equiv> int32ToRgb (written AND 0x00ffffff)"
  defines "Mn \<equiv> least_channel rgb" and "Mx \<equiv> greatest_channel rgb"
  assumes "scan_image img inputVariants staticColors options = Inr st"
    and "idx < width img * height img"
    and "idx < length (pixels img)"
    and "alpha_of p \<noteq> 0"
    and "\<not> is_static (make_env img inputVariants staticColors options) (p AND 0x00ffffff)"
    and "i < length inputVariants"
    and "snd (inputVariants ! i) = UniformHue H"
    and "0 \<le> H" and "H \<le> 360"
  shows "buffers st ! i ! idx
           = (if H \<noteq> 0 then written else if staticColors = None then p else 0)
    \<and> alpha_of written = alpha_of p
    \<and> truncates (num_of (fst out)) (255 * rotated H Mn Mx (- 1))
    \<and> truncates (num_of (fst (snd out))) (255 * rotated H Mn Mx 0)
    \<and> truncates (num_of (snd (snd out))) (255 * rotated H Mn Mx 1)
    \<and> (H < 360 \<and> Mn < Mx \<longrightarrow>
          hue_of (rotated H Mn Mx 1, rotated H Mn Mx 0, rotated H Mn Mx (- 1)) = H
          \<and> min (min (rotated H Mn Mx 1) (rotated H Mn Mx 0)) (rotated H Mn Mx (- 1)) = Mn
          \<and> max (max (rotated H Mn Mx 1) (rotated H Mn Mx 0)) (rotated H Mn Mx (- 1)) = Mx)"
proof -
  from uniform_hue_pixel [OF assms(7-15) [unfolded p_def]]
  have engine: "buffers st ! i ! idx
           = (if H \<noteq> 0 then written else if staticColors = None then p else 0)"
    "alpha_of written = alpha_of p"
    by (simp_all add: written_def rgb_def p_def)
  note ch = written_channels [OF assms(14,15), where p = p and a = "alpha_of p",
      folded rgb_def written_def out_def Mn_def Mx_def]
  have "hue_of (rotated H Mn Mx 1, rotated H Mn Mx 0, rotated H Mn Mx (- 1)) = H
          \<and> min (min (rotated H Mn Mx 1) (rotated H Mn Mx 0)) (rotated H Mn Mx (- 1)) = Mn
          \<and> max (max (rotated H Mn Mx 1) (rotated H Mn Mx 0)) (rotated H Mn Mx (- 1)) = Mx"
    if "H < 360" "Mn < Mx"
    using assms(14) that by (rule hue_of_rotated)
  with engine ch show ?thesis unfolding out_def by blast
qed

lemma green_rotation_parts:
  "least_channel (0, 0, 0xff) = 0" "greatest_channel (0, 0, 0xff) = 1"
  "rotated 120 0 1 (- 1) = 0" "rotated 120 0 1 0 = 1" "rotated 120 0 1 1 = 0"
  "int32ToRgb (0xff00ff00 AND 0x00ffffff) = (0, 0xff, 0)" "int32ToRgb 0xff00 = (0, 0xff, 0)"
  "truncates (num_of 0) (255 * 0)" "truncates (num_of 0xff) (255 * 1)"
  "hue_of (0, 1, 0) = 120"
  by (simp_all add: least_channel_def greatest_channel_def num_of_def rotated_def
      ramp_wrapped_def ramp_def int32ToRgb_def truncates_def hue_of_def)

theorem uniform_hue_rotates_witness:
  "scan_image \<lparr>width = 1, height = 1, pixels = [0xff0000ff]\<rparr> [(NumberName 1, UniformHue 120)]
       None \<lparr>imageName = None, ignoreMissing = False\<rparr>
     = Inr \<lparr>buffers = [[0xff00ff00]], missing = []\<rparr>
   \<and> scan_image \<lparr>width = 1, height = 1, pixels = [0xff0000ff]\<rparr> [(NumberName 1, UniformHue 0)]
       None \<lparr>imageName = None, ignoreMissing = False\<rparr>
     = Inr \<lparr>buffers = [[0xff0000ff]], missing = []\<rparr>
   \<and> alpha_of ([0xff0000ff] ! 0) \<noteq> 0
   \<and> \<not> is_static (make_env \<lparr>width = 1, height = 1, pixels = [0xff0000ff]\<rparr>
                      [(NumberName 1, UniformHue 120)] None \<lparr>imageName = None, ignoreMissing = False\<rparr>)
           (([0xff0000ff] ! 0) AND 0x00ffffff)
   \<and> \<not> is_static (make_env \<lparr>width = 1, height = 1, pixels = [0xff0000ff]\<rparr>
                      [(NumberName 1, UniformHue 0)] None \<lparr>imageName = None, ignoreMissing = False\<rparr>)
           (([0xff0000ff] ! 0) AND 0x00ffffff)
   \<and> push_bit 24 (alpha_of 0xff0000ff) OR applyHue (int32ToRgb (0xff0000ff AND 0x00ffffff)) 120
       = 0xff00ff00
   \<and> alpha_of (0xff00ff00 :: u32) = alpha_of 0xff0000ff
   \<and> int32ToRgb (0xff00ff00 AND 0x00ffffff) = (0, 0xff, 0)
   \<and> least_channel (int32ToRgb (0xff0000ff AND 0x00ffffff)) = 0
   \<and> greatest_channel (int32ToRgb (0xff0000ff AND 0x00ffffff)) = 1
   \<and> truncates (num_of 0) (255 * rotated 120 0 1 (- 1))
   \<and> truncates (num_of 0xff) (255 * rotated 120 0 1 0)
   \<and> truncates (num_of 0) (255 * rotated 120 0 1 1)
   \<and> hue_of (rotated 120 0 1 1, rotated 120 0 1 0, rotated 120 0 1 (- 1)) = 120"
proof -
  let ?img = "\<lparr>width = 1, height = 1, pixels = [0xff0000ff :: u32]\<rparr>"
  let ?opts = "\<lparr>imageName = None, ignoreMissing = False\<rparr>"
  have scan: "scan_image ?img [(NumberName 1, UniformHue 120)] None ?opts
                = Inr \<lparr>buffers = [[0xff00ff00]], missing = []\<rparr>"
    by (simp add: scan_image_def make_env_def process_row_def process_pixel_def variant_step_def
        write_pixel_def read_pixel_def is_static_def truthy_def variant_hue_def
        alpha_parts rgb_parts applyHue_to_120 list_eval)
  have scan0: "scan_image ?img [(NumberName 1, UniformHue 0)] None ?opts
                = Inr \<lparr>buffers = [[0xff0000ff]], missing = []\<rparr>"
    by (simp add: scan_eval list_eval)
  have alpha: "alpha_of (pixels ?img ! 0) \<noteq> 0"
    by (simp add: alpha_of_def)
  have ns: "\<not> is_static (make_env ?img [(NumberName 1, UniformHue 120)] None ?opts)
              ((pixels ?img ! 0) AND 0x00ffffff)"
    "\<not> is_static (make_env ?img [(NumberName 1, UniformHue 0)] None ?opts)
              ((pixels ?img ! 0) AND 0x00ffffff)"
    by (simp_all add: is_static_def make_env_def)
  note rotate = uniform_hue_rotates [OF scan _ _ alpha ns(1), of 0 120]
  note keep = uniform_hue_rotates [OF scan0 _ _ alpha ns(2), of 0 0]
  have written: "push_bit 24 (alpha_of 0xff0000ff)
      OR applyHue (int32ToRgb (0xff0000ff AND 0x00ffffff)) 120 = (0xff00ff00 :: u32)"
    by (simp add: alpha_parts rgb_parts applyHue_to_120)
  from rotate have "alpha_of (0xff00ff00 :: u32) = alpha_of 0xff0000ff
     \<and> truncates (num_of 0) (255 * rotated 120 0 1 (- 1))
     \<and> truncates (num_of 0xff) (255 * rotated 120 0 1 0)
     \<and> truncates (num_of 0) (255 * rotated 120 0 1 1)
     \<and> hue_of (rotated 120 0 1 1, rotated 120 0 1 0, rotated 120 0 1 (- 1)) = 120"
    by (simp add: alpha_parts rgb_parts applyHue_to_120 green_rotation_parts)
  moreover from keep scan0 have "buffers \<lparr>buffers = [[0xff0000ff :: u32]], missing = []\<rparr> ! 0 ! 0
      = 0xff0000ff" by simp
  ultimately show ?thesis
    using scan scan0 alpha ns written
    by (simp add: rgb_parts green_rotation_parts)
qed

section \<open>Colours that do not parse\<close>

lemma remap_pixels_fails:
  assumes "p \<in> set ps" and "remap_pixel staticColors palette p = Inl e"
  shows "\<exists>e'. remap_pixels staticColors palette ps acc = Inl e'"
  using assms(1)
proof (induction ps arbitrary: acc)
  case Nil
  then show ?case by simp
next
  case (Cons q qs)
  show ?case
  proof (cases "remap_pixel staticColors palette q")
    case (Inl e')
    then show ?thesis by simp
  next
    case (Inr r)
    with assms(2) Cons.prems have "p \<in> set qs" by auto
    from Cons.IH [OF this] Inr show ?thesis by (simp split: prod.splits)
  qed
qed

lemma remap_variants_fails:
  assumes "v \<in> set vs" and "remap_variant img staticColors options v = Inl e"
  shows "\<exists>e'. remap_variants img staticColors images options vs results = Inl e'"
  using assms(1)
proof (induction vs arbitrary: results)
  case Nil
  then show ?case by simp
next
  case (Cons u us)
  show ?case
  proof (cases "remap_variant img staticColors options u")
    case (Inl e')
    then show ?thesis by simp
  next
    case (Inr r)
    with assms(2) Cons.prems have "v \<in> set us" by auto
    from Cons.IH [OF this] Inr show ?thesis by simp
  qed
qed

lemma remap_pixels_first_failure:
  assumes "\<forall>q \<in> set ps1. \<exists>r. remap_pixel staticColors palette q = Inr r"
    and "remap_pixel staticColors palette p = Inl e"
  shows "remap_pixels staticColors palette (ps1 @ p # ps2) acc = Inl e"
  using assms(1)
proof (induction ps1 arbitrary: acc)
  case Nil
  then show ?case by (simp add: assms(2))
next
  case (Cons q qs)
  then obtain r where "remap_pixel staticColors palette q = Inr r" by auto
  with Cons show ?case by (simp split: prod.splits)
qed

lemma remap_variants_first_failure:
  assumes "\<forall>u \<in> set vs1. \<exists>r. remap_variant img staticColors options u = Inr r"
    and "remap_variant img staticColors options v = Inl e"
  shows "remap_variants img staticColors images options (vs1 @ v # vs2) results = Inl e"
  using assms(1)
proof (induction vs1 arbitrary: results)
  case Nil
  then show ?case by (simp add: assms(2))
next
  case (Cons u us)
  then obtain r where "remap_variant img staticColors options u = Inr r" by auto
  with Cons show ?case by simp
qed

lemma hexToRgba_cases:
  "hexToRgba str =
     (if \<exists>i. Suc i < length str \<and> is_word (str ! i) \<and> is_word (str ! Suc i)
      then Inr (map parseInt16 (match_pairs str))
      else Inl (InvalidColor str))"
  using match_pairs_empty_iff [of str] by (simp add: hexToRgba_def Let_def)

text \<open>
  Claim C7. \<^verbatim>\<open>hexToRgba\<close> fails, with the error \<^verbatim>\<open>Invalid color\<close>, exactly for a string
  in which no two word characters are adjacent, and any other string it parses into
  the numbers of the pairs of word characters found in it. When the colour \<open>c\<close> that
  a pixel \<open>p\<close> is mapped to in a variant \<open>v\<close> is a string on which it fails, the loop
  body fails with that error at the pixel, and \<^verbatim>\<open>paletteSwap\<close> of that file returns an
  error and no result: the error of \<open>c\<close> itself when no variant before \<open>v\<close> fails and no
  pixel before \<open>p\<close> fails in \<open>v\<close>, and else the error of the first step that fails.
\<close>

theorem invalid_color_aborts:
  assumes "variants = vs1 @ v # vs2"
    and "image_data img = ps1 @ p # ps2"
    and "classify staticColors (snd v) p = Parse c"
    and "\<not> (\<exists>i. Suc i < length c \<and> is_word (c ! i) \<and> is_word (c ! Suc i))"
  shows "(\<forall>str. hexToRgba str =
            (if \<exists>i. Suc i < length str \<and> is_word (str ! i) \<and> is_word (str ! Suc i)
             then Inr (map parseInt16 (match_pairs str))
             else Inl (InvalidColor str)))
    \<and> remap_pixel staticColors (snd v) p = Inl (InvalidColor c)
    \<and> ((\<forall>u \<in> set vs1. \<exists>r. remap_variant img staticColors options u = Inr r)
         \<and> (\<forall>q \<in> set ps1. \<exists>r. remap_pixel staticColors (snd v) q = Inr r)
       \<longrightarrow> paletteSwap_hex img variants staticColors images options = Inl (InvalidColor c))
    \<and> (\<exists>e. paletteSwap_hex img variants staticColors images options = Inl e)"
proof -
  have 1: "hexToRgba c = Inl (InvalidColor c)"
    using assms(4) by (simp add: hexToRgba_cases)
  then have 2: "remap_pixel staticColors (snd v) p = Inl (InvalidColor c)"
    using assms(3) by (simp add: remap_pixel_def)
  have 3: "paletteSwap_hex img variants staticColors images options = Inl (InvalidColor c)"
    if vs: "\<forall>u \<in> set vs1. \<exists>r. remap_variant img staticColors options u = Inr r"
      and ps: "\<forall>q \<in> set ps1. \<exists>r. remap_pixel staticColors (snd v) q = Inr r"
  proof -
    have "remap_pixels staticColors (snd v) (image_data img) ([], []) = Inl (InvalidColor c)"
      unfolding assms(2) using ps 2 by (rule remap_pixels_first_failure)
    then have "remap_variant img staticColors options v = Inl (InvalidColor c)"
      by (simp add: remap_variant_def)
    with vs show ?thesis
      unfolding paletteSwap_hex_def assms(1) by (rule remap_variants_first_failure)
  qed
  have "p \<in> set (image_data img)" "v \<in> set variants" by (simp_all add: assms(1,2))
  from remap_pixels_fails [OF this(1) 2]
  obtain e' where "remap_pixels staticColors (snd v) (image_data img) ([], []) = Inl e'"
    by blast
  then have "remap_variant img staticColors options v = Inl e'"
    by (simp add: remap_variant_def)
  from remap_variants_fails [OF \<open>v \<in> set variants\<close> this]
  have 4: "\<exists>e. paletteSwap_hex img variants staticColors images options = Inl e"
    by (simp add: paletteSwap_hex_def)
  from 2 3 4 show ?thesis by (simp add: hexToRgba_cases)
qed

lemma hex_bytes: "hex 255 = ''ff''" "hex 0 = ''00''"
  by (simp_all add: hex_def math_round_def toString16_def padStart2_def hex_of_nat_numeral)

lemma red_hex: "rgbaToHex 255 0 0 (Some 255) = ''#ff0000''"
  "rgbaToHex 0 255 0 (Some 255) = ''#00ff00''"
  by (simp_all add: rgbaToHex_def truthy_def hex_bytes)

lemma is_word_eval: "is_word CHR ''#'' = False" "is_word CHR ''a'' = True"
  "is_word CHR ''b'' = True" "is_word CHR ''c'' = True" "is_word CHR ''0'' = True"
  "is_word CHR ''f'' = True"
  by (simp_all add: is_word_def)

lemma classify_red:
  "classify None (HexTable [''#ff0000'' \<mapsto> HexTarget c]) (255, 0, 0, 255)
     = (if c = [] then Keep else Parse c)"
  by (simp add: classify_def red_hex)

lemma classify_two:
  "classify None (HexTable [''#00ff00'' \<mapsto> HexTarget ''#0000ff'', ''#ff0000'' \<mapsto> HexTarget c])
     (0, 255, 0, 255) = Parse ''#0000ff''"
  "classify None (HexTable [''#00ff00'' \<mapsto> HexTarget ''#0000ff'', ''#ff0000'' \<mapsto> HexTarget c])
     (255, 0, 0, 255) = (if c = [] then Keep else Parse c)"
  by (simp_all add: classify_def red_hex)

lemma blue_parsed: "hexToRgba ''#0000ff'' = Inr [Some 0, Some 0, Some 255]"
  "hexToRgba ''#00ff00'' = Inr [Some 0, Some 255, Some 0]"
  "hexToRgba ''#'' = Inl (InvalidColor ''#'')"
  by (simp_all add: hexToRgba_def is_word_eval parseInt16_def hex_digit_value_def is_space_def)

theorem invalid_color_aborts_witness:
  "[(NumberName 1, HexTable [''#00ff00'' \<mapsto> HexTarget ''#0000ff'',
                              ''#ff0000'' \<mapsto> HexTarget ''#00ff00'']),
    (NumberName 2, HexTable [''#00ff00'' \<mapsto> HexTarget ''#0000ff'',
                              ''#ff0000'' \<mapsto> HexTarget ''#''])]
     = [(NumberName 1, HexTable [''#00ff00'' \<mapsto> HexTarget ''#0000ff'',
                                  ''#ff0000'' \<mapsto> HexTarget ''#00ff00''])]
       @ (NumberName 2, HexTable [''#00ff00'' \<mapsto> HexTarget ''#0000ff'',
                                   ''#ff0000'' \<mapsto> HexTarget ''#'']) # []
   \<and> image_data \<lparr>image_width = 2, image_height = 1,
                    image_data = [(0, 255, 0, 255), (255, 0, 0, 255)]\<rparr>
       = [(0, 255, 0, 255)] @ (255, 0, 0, 255) # []
   \<and> classify None (HexTable [''#00ff00'' \<mapsto> HexTarget ''#0000ff'',
                                ''#ff0000'' \<mapsto> HexTarget ''#'']) (255, 0, 0, 255) = Parse ''#''
   \<and> \<not> (\<exists>i. Suc i < length ''#'' \<and> is_word (''#'' ! i) \<and> is_word (''#'' ! Suc i))
   \<and> remap_variant \<lparr>image_width = 2, image_height = 1,
                       image_data = [(0, 255, 0, 255), (255, 0, 0, 255)]\<rparr> None
        \<lparr>imageName = None, ignoreMissing = False\<rparr>
        (NumberName 1, HexTable [''#00ff00'' \<mapsto> HexTarget ''#0000ff'',
                                  ''#ff0000'' \<mapsto> HexTarget ''#00ff00''])
       = Inr \<lparr>image_width = 2, image_height = 1,
                image_data = [(0, 0, 255, 255), (0, 255, 0, 255)]\<rparr>
   \<and> remap_pixel None (HexTable [''#00ff00'' \<mapsto> HexTarget ''#0000ff'',
                                   ''#ff0000'' \<mapsto> HexTarget ''#'']) (0, 255, 0, 255)
       = Inr ((0, 0, 255, 255), None)
   \<and> hexToRgba ''#'' = Inl (InvalidColor ''#'')
   \<and> remap_pixel None (HexTable [''#00ff00'' \<mapsto> HexTarget ''#0000ff'',
                                   ''#ff0000'' \<mapsto> HexTarget ''#'']) (255, 0, 0, 255)
       = Inl (InvalidColor ''#'')
   \<and> paletteSwap_hex \<lparr>image_width = 2, image_height = 1,
                         image_data = [(0, 255, 0, 255), (255, 0, 0, 255)]\<rparr>
        [(NumberName 1, HexTable [''#00ff00'' \<mapsto> HexTarget ''#0000ff'',
                                  ''#ff0000'' \<mapsto> HexTarget ''#00ff00'']),
         (NumberName 2, HexTable [''#00ff00'' \<mapsto> HexTarget ''#0000ff'',
                                  ''#ff0000'' \<mapsto> HexTarget ''#''])] None None
        \<lparr>imageName = None, ignoreMissing = False\<rparr>
      = Inl (InvalidColor ''#'')"
proof -
  let ?t1 = "HexTable [''#00ff00'' \<mapsto> HexTarget ''#0000ff'', ''#ff0000'' \<mapsto> HexTarget ''#00ff00'']"
  let ?t2 = "HexTable [''#00ff00'' \<mapsto> HexTarget ''#0000ff'', ''#ff0000'' \<mapsto> HexTarget ''#'']"
  let ?img = "\<lparr>image_width = 2, image_height = 1,
               image_data = [(0, 255, 0, 255), (255, 0, 0, 255)]\<rparr>"
  let ?opts = "\<lparr>imageName = None, ignoreMissing = False\<rparr>"
  have vs: "[(NumberName 1, ?t1), (NumberName 2, ?t2)]
              = [(NumberName 1, ?t1)] @ (NumberName 2, ?t2) # []" by simp
  have ps: "image_data ?img = [(0, 255, 0, 255)] @ (255, 0, 0, 255) # []" by simp
  have c: "classify None (snd (NumberName 2, ?t2)) (255, 0, 0, 255) = Parse ''#''"
    by (simp add: classify_two)
  have w: "\<not> (\<exists>i. Suc i < length ''#'' \<and> is_word (''#'' ! i) \<and> is_word (''#'' ! Suc i))"
    by simp
  have px: "parsed_pixel [Some 0, Some 0, Some 255] = (0, 0, 255, 255)"
    "parsed_pixel [Some 0, Some 255, Some 0] = (0, 255, 0, 255)"
    by (simp_all add: parsed_pixel_def element_def clamp_store_def)
  have q: "remap_pixel None ?t2 (0, 255, 0, 255) = Inr ((0, 0, 255, 255), None)"
    by (simp add: remap_pixel_def classify_two blue_parsed px)
  have u: "remap_variant ?img None ?opts (NumberName 1, ?t1)
      = Inr \<lparr>image_width = 2, image_height = 1,
               image_data = [(0, 0, 255, 255), (0, 255, 0, 255)]\<rparr>"
    by (simp add: remap_variant_def remap_pixel_def classify_two blue_parsed px)
  note inst = invalid_color_aborts [OF vs ps c w, of ?opts None]
  from inst have fail: "remap_pixel None ?t2 (255, 0, 0, 255) = Inl (InvalidColor ''#'')"
    by simp
  from inst have
    "(\<forall>u \<in> set [(NumberName 1, ?t1)]. \<exists>r. remap_variant ?img None ?opts u = Inr r)
       \<and> (\<forall>q \<in> set [(0, 255, 0, 255)]. \<exists>r. remap_pixel None (snd (NumberName 2, ?t2)) q = Inr r)
     \<longrightarrow> paletteSwap_hex ?img [(NumberName 1, ?t1), (NumberName 2, ?t2)] None None ?opts
           = Inl (InvalidColor ''#'')"
    by (elim conjE)
  with q u have call: "paletteSwap_hex ?img [(NumberName 1, ?t1), (NumberName 2, ?t2)] None None ?opts
      = Inl (InvalidColor ''#'')"
    by simp
  have c': "classify None ?t2 (255, 0, 0, 255) = Parse ''#''" using c by simp
  show ?thesis
    by (intro conjI vs ps c' w u q fail call blue_parsed(3))
qed

theorem three_digits_parsed:
  "\<not> whole_byte_pairs ''#abc''
   \<and> hexToRgba ''#abc'' = Inr [Some 171]
   \<and> paletteSwap_hex \<lparr>image_width = 1, image_height = 1, image_data = [(255, 0, 0, 255)]\<rparr>
        [(NumberName 1, HexTable [''#ff0000'' \<mapsto> HexTarget ''#abc''])] None None
        \<lparr>imageName = None, ignoreMissing = False\<rparr>
      = Inr [(NumberName 1, \<lparr>image_width = 1, image_height = 1, image_data = [(171, 0, 0, 255)]\<rparr>)]
   \<and> hexToInt32 ''#abc'' = 0xbc0a00"
proof -
  have 1: "\<not> whole_byte_pairs ''#abc''"
    by (simp add: whole_byte_pairs_def)
  have 2: "hexToRgba ''#abc'' = Inr [Some 171]"
    by (simp add: hexToRgba_def is_word_eval parseInt16_def hex_digit_value_def is_space_def)
  have 3: "parsed_pixel [Some 171] = (171, 0, 0, 255)"
    by (simp add: parsed_pixel_def element_def clamp_store_def)
  have 4: "paletteSwap_hex \<lparr>image_width = 1, image_height = 1, image_data = [(255, 0, 0, 255)]\<rparr>
        [(NumberName 1, HexTable [''#ff0000'' \<mapsto> HexTarget ''#abc''])] None None
        \<lparr>imageName = None, ignoreMissing = False\<rparr>
      = Inr [(NumberName 1, \<lparr>image_width = 1, image_height = 1, image_data = [(171, 0, 0, 255)]\<rparr>)]"
    by (simp add: paletteSwap_hex_def remap_variant_def remap_pixel_def classify_red 2 3)
  have 5: "hexToInt32 ''#abc'' = 0xbc0a00"
    by (simp add: parse_eval fl_eval)
  from 1 2 4 5 show ?thesis by simp
qed

end
